theory Spec2Isabelle
  imports Main "HOL-Library.Word"
begin

unbundle bit_operations_syntax

section \<open>Machine types and errors\<close>

type_synonym u8 = "8 word"
type_synonym u32 = "32 word"
type_synonym u64 = "64 word"

text \<open>
  The only failure the C code can run into is a read outside an object (undefined
  behaviour in C); the model returns it as a value.
\<close>

datatype error = OutOfBounds

section \<open>The static catalogue tables of kmerhash.c\<close>

text \<open>
  \<^verbatim>\<open>_tbl_mask\<close>, \<^verbatim>\<open>_tbl_shift\<close>, \<^verbatim>\<open>_tbl_nbyte\<close>, \<^verbatim>\<open>_tbl_seed\<close>, \<^verbatim>\<open>_idx_mode\<close> and
  \<^verbatim>\<open>_n_idx\<close>, entry by entry as in the source (an identifier cannot start with an
  underscore here, so the leading underscore is dropped).
\<close>

definition tbl_mask :: "u64 list" where
  "tbl_mask = [0xffff, 0xffffff, 0xffffffff, 0xffffffffff, 0xffffffffffff,
               0xffffffffffff, 0xffffffffffffffff]"

definition tbl_shift :: "nat list" where
  "tbl_shift = [48, 40, 32, 24, 16, 8, 0]"

definition tbl_nbyte :: "nat list" where
  "tbl_nbyte = [2, 3, 4, 5, 6, 7, 8]"

definition tbl_seed :: "u32 list" where
  "tbl_seed = [0x9040a6, 0x10bea992, 0x50edd67d, 0xb05a4f09, 0xf07046c5, 0x9c9445ab,
               0xb2500f29]"

definition idx_mode :: "nat list list list" where
  "idx_mode =
    [[[2,6,0,0,0,0,0], [0,0,0,0,0,0,0]],
     [[2,6,0,0,0,0,0], [2,6,0,0,0,0,0]],
     [[0,2,4,6,0,0,0], [2,6,0,0,0,0,0]],
     [[0,1,2,4,6,0,0], [0,2,6,0,0,0,0]],
     [[0,1,2,3,4,5,6], [0,0,0,0,0,0,0]],
     [[0,1,2,3,4,5,6], [0,1,2,6,0,0,0]]]"

definition n_idx :: "nat list list" where
  "n_idx = [[2,0], [2,2], [4,2], [5,3], [7,0], [7,4]]"

section \<open>The configuration: \<^verbatim>\<open>struct kmer_params_struct\<close> and \<^verbatim>\<open>new_kmer_params\<close>\<close>

text \<open>
  The struct is declared in kmerhash.h, which is not among the sources at hand; its
  fields are the ones kmerhash.c reads and writes. The per-length arrays are total maps
  from the index to the slot, the seed slots hold the 64-bit value the C expression
  computes, and the small counters (\<^verbatim>\<open>n1\<close>, \<^verbatim>\<open>n2\<close>, shifts, byte counts, sizes) are
  natural numbers: the largest value the tables produce is \<open>(8 + 8) * 8 = 128\<close>, so no
  8-bit counter wraps. The field \<^verbatim>\<open>size\<close> is named \<open>size_k\<close>.
\<close>

record kmer_params =
  mask1 :: "nat \<Rightarrow> u64"
  mask2 :: "nat \<Rightarrow> u64"
  seed :: "nat \<Rightarrow> u64"
  n1 :: nat
  n2 :: nat
  shift1 :: "nat \<Rightarrow> nat"
  shift2 :: "nat \<Rightarrow> nat"
  nbytes :: "nat \<Rightarrow> nat"
  size_k :: "nat \<Rightarrow> nat"
  dense :: nat
  kmer_class_mode :: int
  hashfunction :: "u8 list \<Rightarrow> u64 \<Rightarrow> u64"
  ref_counter :: int

text \<open>
  The \<^verbatim>\<open>switch (mode)\<close>: the pair (row of \<^verbatim>\<open>_idx_mode\<close>, dense). The label
  \<^verbatim>\<open>default\<close> shares the body of \<^verbatim>\<open>case 3\<close>; the labels 4 and 5 that follow it are
  still matched first, as C does.
\<close>

definition mode_row :: "int \<Rightarrow> nat \<times> nat" where
  "mode_row mode =
     (if mode = 0 then (0, 1)
      else if mode = 1 then (2, 1)
      else if mode = 2 then (3, 0)
      else if mode = 4 then (5, 0)
      else if mode = 5 then (1, 2)
      else (4, 1))"

text \<open>The body of the first loop, for one \<open>j < n1\<close>.\<close>

definition fill1 :: "nat \<Rightarrow> nat \<Rightarrow> nat \<Rightarrow> kmer_params \<Rightarrow> kmer_params" where
  "fill1 row bases_per_byte j p =
     (let i = idx_mode ! row ! 0 ! j in
      p\<lparr>mask1 := (mask1 p)(j := tbl_mask ! i),
        shift1 := (shift1 p)(j := tbl_shift ! i),
        seed := (seed p)(j := ucast (tbl_seed ! i)),
        nbytes := (nbytes p)(j := tbl_nbyte ! i),
        size_k := (size_k p)(j := tbl_nbyte ! i * bases_per_byte)\<rparr>)"

text \<open>
  The body of the second loop, for one \<open>j < n2\<close>. The seed goes to slot \<open>j\<close>, the byte
  count and the size to slot \<open>j + n1\<close>, as the source writes them. The constant
  \<^verbatim>\<open>0x420314a1d\<close> does not fit 32 bits, so the sum is computed in 64 bits.
\<close>

definition fill2 :: "nat \<Rightarrow> nat \<Rightarrow> nat \<Rightarrow> kmer_params \<Rightarrow> kmer_params" where
  "fill2 row bases_per_byte j p =
     (let i = idx_mode ! row ! 1 ! j in
      p\<lparr>mask2 := (mask2 p)(j := tbl_mask ! i),
        shift2 := (shift2 p)(j := tbl_shift ! i),
        seed := (seed p)(j := ucast (drop_bit 2 (tbl_seed ! i)) + 0x420314a1d),
        nbytes := (nbytes p)(j + n1 p := tbl_nbyte ! i + 8),
        size_k := (size_k p)(j + n1 p := (tbl_nbyte ! i + 8) * bases_per_byte)\<rparr>)"

text \<open>
  \<^verbatim>\<open>new_kmer_params (mode)\<close>. The struct comes from \<^verbatim>\<open>biomcmc_malloc\<close> and is not
  cleared: \<open>p0\<close> is the content of that memory, which every slot the function does not
  write keeps. \<open>xxh64\<close> stands for \<^verbatim>\<open>biomcmc_xxh64\<close> (defined elsewhere in the library):
  the bytes it reads and the seed it is given.
\<close>

definition new_kmer_params ::
  "(u8 list \<Rightarrow> u64 \<Rightarrow> u64) \<Rightarrow> kmer_params \<Rightarrow> int \<Rightarrow> kmer_params" where
  "new_kmer_params xxh64 p0 mode =
     (let p = p0\<lparr>ref_counter := 1, hashfunction := xxh64, kmer_class_mode := mode\<rparr>;
          row = fst (mode_row mode);
          p = p\<lparr>dense := snd (mode_row mode)\<rparr>;
          bases_per_byte = [2, 4, 8] ! dense p;
          p = p\<lparr>n1 := n_idx ! row ! 0, n2 := n_idx ! row ! 1\<rparr>;
          p = fold (fill1 row bases_per_byte) [0..<n1 p] p;
          p = fold (fill2 row bases_per_byte) [0..<n2 p] p
      in p)"

section \<open>The symbol tables: \<^verbatim>\<open>initialize_dna_to_bit_tables\<close>\<close>

text \<open>
  Each table has 256 rows of two bytes, (forward code, reverse code). The initialiser
  first writes one default pair to every row and then the listed rows, in the order of the
  source; a character literal indexes by its code. The tables below are the tables after
  the initialiser ran, which \<^verbatim>\<open>new_kmer_params\<close> guarantees before any state exists.
\<close>

definition set_rows :: "(char \<times> u8 \<times> u8) list \<Rightarrow> (u8 \<times> u8) list \<Rightarrow> (u8 \<times> u8) list" where
  "set_rows rows t = fold (\<lambda>(c, f, r) t. t[of_char c := (f, r)]) rows t"

definition dna_in_4_bits :: "(u8 \<times> u8) list" where
  "dna_in_4_bits = set_rows
     [(CHR ''A'', 1, 8), (CHR ''B'', 14, 7), (CHR ''C'', 2, 4), (CHR ''D'', 13, 11),
      (CHR ''G'', 4, 2), (CHR ''H'', 11, 13), (CHR ''K'', 12, 3), (CHR ''M'', 3, 12),
      (CHR ''N'', 15, 15), (CHR ''O'', 15, 15), (CHR ''R'', 5, 10), (CHR ''S'', 6, 6),
      (CHR ''T'', 8, 1), (CHR ''U'', 8, 1), (CHR ''V'', 7, 14), (CHR ''W'', 9, 9),
      (CHR ''X'', 15, 15), (CHR ''Y'', 10, 5), (CHR ''?'', 15, 15), (CHR ''-'', 0, 0)]
     (replicate 256 (0, 0))"

definition dna_in_2_bits :: "(u8 \<times> u8) list" where
  "dna_in_2_bits = set_rows
     [(CHR ''A'', 0, 3), (CHR ''C'', 1, 2), (CHR ''G'', 2, 1), (CHR ''T'', 3, 0),
      (CHR ''U'', 3, 0)]
     (replicate 256 (4, 4))"

definition dna_in_1_bits :: "(u8 \<times> u8) list" where
  "dna_in_1_bits = set_rows
     [(CHR ''A'', 0, 0), (CHR ''T'', 0, 0), (CHR ''C'', 1, 1), (CHR ''G'', 1, 1)]
     (replicate 256 (4, 4))"

text \<open>
  The index the iterator computes from a byte of the sequence, \<^verbatim>\<open>(int)(kmer->dna[kmer->i])\<close>.
  The buffer is a \<^verbatim>\<open>char *\<close> and C leaves the signedness of \<^verbatim>\<open>char\<close> to the platform:
  \<open>sc\<close> says that \<^verbatim>\<open>char\<close> is signed (as on x86), and then a byte of 128 or more converts to a
  negative \<^verbatim>\<open>int\<close>. A row outside \<open>0..255\<close> is outside the table.
\<close>

definition char_index :: "bool \<Rightarrow> char \<Rightarrow> int" where
  "char_index sc c =
     (if sc \<and> 128 \<le> (of_char c :: nat) then int (of_char c) - 256 else int (of_char c))"

definition tbl_at :: "(u8 \<times> u8) list \<Rightarrow> int \<Rightarrow> error + (u8 \<times> u8)" where
  "tbl_at t k = (if 0 \<le> k \<and> k < int (length t) then Inr (t ! nat k) else Inl OutOfBounds)"

text \<open>Reading byte \<open>k\<close> of the bound sequence and looking its row up.\<close>

definition read_code :: "bool \<Rightarrow> (u8 \<times> u8) list \<Rightarrow> string \<Rightarrow> nat \<Rightarrow> error + (u8 \<times> u8)" where
  "read_code sc t d k =
     (if k < length d then tbl_at t (char_index sc (d ! k)) else Inl OutOfBounds)"

section \<open>The rolling state: \<^verbatim>\<open>struct kmerhash_struct\<close>\<close>

text \<open>
  \<open>forward\<close> and \<open>reverse\<close> are the two-word arrays, as the pair (element 0, element 1).
  The fields \<^verbatim>\<open>p\<close> and \<^verbatim>\<open>i\<close> of the source are named \<open>params\<close> and \<open>cur\<close>, and the
  reference counter \<open>kmer_ref_counter\<close>.
\<close>

record kmerhash =
  forward :: "u64 \<times> u64"
  reverse :: "u64 \<times> u64"
  n_f :: nat
  params :: kmer_params
  n_hash :: nat
  hash :: "u64 list"
  kmer :: "u64 list"
  dna :: string
  n_dna :: nat
  cur :: nat
  kmer_ref_counter :: int

definition new_kmerhash ::
  "(u8 list \<Rightarrow> u64 \<Rightarrow> u64) \<Rightarrow> kmer_params \<Rightarrow> int \<Rightarrow> kmerhash" where
  "new_kmerhash xxh64 p0 mode =
     (let pp = new_kmer_params xxh64 p0 mode in
      \<lparr>forward = (0, 0), reverse = (0, 0), n_f = 2, params = pp,
       n_hash = n1 pp + n2 pp,
       hash = replicate (n1 pp + n2 pp) 0,
       kmer = replicate (n1 pp) 0,
       dna = [], n_dna = 0, cur = 0, kmer_ref_counter = 1\<rparr>)"

definition link_kmerhash_to_dna_sequence :: "kmerhash \<Rightarrow> string \<Rightarrow> nat \<Rightarrow> kmerhash" where
  "link_kmerhash_to_dna_sequence st d dna_length =
     st\<lparr>dna := d, n_dna := dna_length, cur := 0,
        forward := (0, 0), reverse := (0, 0),
        hash := fold (\<lambda>k h. h[k := 0]) [0..<n_hash st] (hash st),
        kmer := fold (\<lambda>k h. h[k := 0]) [0..<n1 (params st)] (kmer st)\<rparr>"

section \<open>Memory as the hash function reads it\<close>

text \<open>
  The hash function receives a pointer and a byte count. The source assumes a
  little-endian machine (its opening comment spells the byte order out), so a 64-bit
  word is its eight bytes from the least significant, and a two-word array is the bytes
  of element 0 followed by those of element 1. A read that leaves the object fails.
\<close>

definition bytes_of_u64 :: "u64 \<Rightarrow> u8 list" where
  "bytes_of_u64 w = map (\<lambda>k. ucast (drop_bit (8 * k) w)) [0..<8]"

definition bytes_of_pair :: "u64 \<times> u64 \<Rightarrow> u8 list" where
  "bytes_of_pair r = bytes_of_u64 (fst r) @ bytes_of_u64 (snd r)"

definition mem_read :: "u8 list \<Rightarrow> nat \<Rightarrow> nat \<Rightarrow> error + u8 list" where
  "mem_read buf off len =
     (if off + len \<le> length buf then Inr (take len (drop off buf)) else Inl OutOfBounds)"

section \<open>\<^verbatim>\<open>kmerhash_iterator\<close>\<close>

text \<open>
  The skip loop of the 1-bit and 2-bit branches:
  \<^verbatim>\<open>while ((kmer->i < kmer->n_dna) && (table[(int)(kmer->dna[kmer->i])][0] > thr)) kmer->i++;\<close>
  It returns the cursor it stops at.
\<close>

function skip_loop :: "bool \<Rightarrow> (u8 \<times> u8) list \<Rightarrow> u8 \<Rightarrow> string \<Rightarrow> nat \<Rightarrow> nat \<Rightarrow> error + nat" where
  "skip_loop sc t thr d n k =
     (if k < n then
        (case read_code sc t d k of
           Inl e \<Rightarrow> Inl e
         | Inr c \<Rightarrow> if thr < fst c then skip_loop sc t thr d n (k + 1) else Inr k)
      else Inr k)"
  by pat_completeness auto
termination
  by (relation "measure (\<lambda>(sc, t, thr, d, n, k). n - k)") auto

declare skip_loop.simps [simp del]

lemma skip_loop_ge: "skip_loop sc t thr d n k = Inr k' \<Longrightarrow> k \<le> k'"
proof (induction sc t thr d n k rule: skip_loop.induct)
  case (1 sc t thr d n k)
  from "1.prems" "1.IH" show ?case
    by (subst (asm) skip_loop.simps) (auto split: if_splits sum.splits)
qed

text \<open>
  The register update of one branch, \<open>b\<close> bits a symbol (\<open>64 - b\<close> is the 63, 62 or 60 of
  the source), on the arrays \<open>f = forward\<close> and \<open>r = reverse\<close>. \<open>two\<close> is the test
  \<^verbatim>\<open>if (kmer->p->n2)\<close>: only then are \<^verbatim>\<open>forward[1]\<close> and \<^verbatim>\<open>reverse[0]\<close> touched, and they
  are updated first, from the old \<^verbatim>\<open>forward[0]\<close> and \<^verbatim>\<open>reverse[1]\<close>.
\<close>

definition shift_regs ::
  "nat \<Rightarrow> bool \<Rightarrow> u8 \<times> u8 \<Rightarrow> (u64 \<times> u64) \<times> (u64 \<times> u64) \<Rightarrow> (u64 \<times> u64) \<times> (u64 \<times> u64)" where
  "shift_regs b two c fr =
     (let f0 = fst (fst fr); f1 = snd (fst fr);
          r0 = fst (snd fr); r1 = snd (snd fr);
          f1' = (if two then push_bit b f1 OR drop_bit (64 - b) f0 else f1);
          r0' = (if two then drop_bit b r0 OR push_bit (64 - b) r1 else r0);
          f0' = push_bit b f0 OR ucast (fst c);
          r1' = drop_bit b r1 OR push_bit (64 - b) (ucast (snd c))
      in ((f0', f1'), (r0', r1')))"

definition shift_in :: "nat \<Rightarrow> bool \<Rightarrow> u8 \<times> u8 \<Rightarrow> kmerhash \<Rightarrow> kmerhash" where
  "shift_in b two c st =
     (let fr = shift_regs b two c (forward st, reverse st)
      in st\<lparr>forward := fst fr, reverse := snd fr\<rparr>)"

text \<open>
  The part of the iterator between the first test and \<^verbatim>\<open>kmer->i++\<close>: the three density
  branches. The flag is \<open>False\<close> where the source returns false from inside a branch.
\<close>

definition absorb :: "bool \<Rightarrow> kmerhash \<Rightarrow> error + (bool \<times> kmerhash)" where
  "absorb sc st =
     (if dense (params st) = 2 then
        (case skip_loop sc dna_in_1_bits 1 (dna st) (n_dna st) (cur st) of
           Inl e \<Rightarrow> Inl e
         | Inr k \<Rightarrow>
             if k = n_dna st then Inr (False, st\<lparr>cur := k\<rparr>)
             else (case read_code sc dna_in_1_bits (dna st) k of
                     Inl e \<Rightarrow> Inl e
                   | Inr c \<Rightarrow> Inr (True, shift_in 1 (n2 (params st) \<noteq> 0) c (st\<lparr>cur := k\<rparr>))))
      else if dense (params st) = 1 then
        (case skip_loop sc dna_in_2_bits 3 (dna st) (n_dna st) (cur st) of
           Inl e \<Rightarrow> Inl e
         | Inr k \<Rightarrow>
             if k = n_dna st then Inr (False, st\<lparr>cur := k\<rparr>)
             else (case read_code sc dna_in_2_bits (dna st) k of
                     Inl e \<Rightarrow> Inl e
                   | Inr c \<Rightarrow> Inr (True, shift_in 2 (n2 (params st) \<noteq> 0) c (st\<lparr>cur := k\<rparr>))))
      else
        (case read_code sc dna_in_4_bits (dna st) (cur st) of
           Inl e \<Rightarrow> Inl e
         | Inr c \<Rightarrow> Inr (True, shift_in 4 (n2 (params st) \<noteq> 0) c st)))"

lemma absorb_cur:
  "absorb sc st = Inr (r, y) \<Longrightarrow> params y = params st \<and> cur st \<le> cur y"
  by (auto simp: absorb_def shift_in_def Let_def split: if_splits sum.splits
      dest: skip_loop_ge)

text \<open>A loop over indices whose body can fail.\<close>

fun for_each :: "(nat \<Rightarrow> 's \<Rightarrow> error + 's) \<Rightarrow> nat list \<Rightarrow> 's \<Rightarrow> error + 's" where
  "for_each body [] s = Inr s"
| "for_each body (k # ks) s =
     (case body k s of Inl e \<Rightarrow> Inl e | Inr s' \<Rightarrow> for_each body ks s')"

text \<open>The body of the first emission loop (lengths that fit one word), for one index.\<close>

definition emit1 :: "nat \<Rightarrow> kmerhash \<Rightarrow> error + kmerhash" where
  "emit1 k st =
     (let pp = params st in
      if size_k pp k \<le> cur st then
        (let hf = fst (forward st) AND mask1 pp k;
             hr = drop_bit (shift1 pp k) (snd (reverse st));
             hf = (if hr < hf then hr else hf)
         in case mem_read (bytes_of_u64 hf) 0 (nbytes pp k) of
              Inl e \<Rightarrow> Inl e
            | Inr bs \<Rightarrow>
                Inr (st\<lparr>kmer := (kmer st)[k := hf],
                        hash := (hash st)[k := hashfunction pp bs (seed pp k)]\<rparr>))
      else Inr st)"

text \<open>
  The bytes the second emission loop hands to the hash function for its index \<open>k\<close>: the
  three-way choice between \<^verbatim>\<open>kmer->forward\<close> and, in the last branch,
  \<^verbatim>\<open>rev8b + kmer->p->shift2[i]\<close>, a byte pointer into \<^verbatim>\<open>reverse\<close> moved by the number
  stored in \<^verbatim>\<open>shift2[i]\<close>; \<^verbatim>\<open>nbytes[j]\<close> bytes are read from there.
\<close>

definition wide_read :: "nat \<Rightarrow> kmerhash \<Rightarrow> error + u8 list" where
  "wide_read k st =
     (let pp = params st; j = n1 pp + k in
      if fst (forward st) < snd (reverse st) then
        mem_read (bytes_of_pair (forward st)) 0 (nbytes pp j)
      else if fst (forward st) = snd (reverse st) \<and>
              (snd (forward st) AND mask2 pp k) < drop_bit (shift2 pp k) (fst (reverse st)) then
        mem_read (bytes_of_pair (forward st)) 0 (nbytes pp j)
      else mem_read (bytes_of_pair (reverse st)) (shift2 pp k) (nbytes pp j))"

text \<open>The body of the second emission loop (lengths that need two words), for one index.\<close>

definition emit2 :: "nat \<Rightarrow> kmerhash \<Rightarrow> error + kmerhash" where
  "emit2 k st =
     (let pp = params st; j = n1 pp + k in
      if size_k pp j \<le> cur st then
        (case wide_read k st of
           Inl e \<Rightarrow> Inl e
         | Inr bs \<Rightarrow> Inr (st\<lparr>hash := (hash st)[j := hashfunction pp bs (seed pp j)]\<rparr>))
      else Inr st)"

definition emit :: "kmerhash \<Rightarrow> error + kmerhash" where
  "emit st =
     (case for_each emit1 [0..<n1 (params st)] st of
        Inl e \<Rightarrow> Inl e
      | Inr st' \<Rightarrow> for_each emit2 [0..<n2 (params st')] st')"

text \<open>
  The iterator. The result is the returned boolean and the state the call leaves. The
  recursive call of the priming line has its result discarded, and the emission loops
  of the calling frame run after it, on the state it left.
\<close>

function kmerhash_iterator :: "bool \<Rightarrow> kmerhash \<Rightarrow> error + (bool \<times> kmerhash)" where
  "kmerhash_iterator sc st =
     (if cur st = n_dna st then Inr (False, st)
      else
        (case absorb sc st of
           Inl e \<Rightarrow> Inl e
         | Inr (False, st1) \<Rightarrow> Inr (False, st1)
         | Inr (True, st1) \<Rightarrow>
             (case (if cur st1 + 1 < size_k (params st1) 0
                    then kmerhash_iterator sc (st1\<lparr>cur := cur st1 + 1\<rparr>)
                    else Inr (True, st1\<lparr>cur := cur st1 + 1\<rparr>))
              of Inl e \<Rightarrow> Inl e
               | Inr (r, st2) \<Rightarrow>
                   (case emit st2 of Inl e \<Rightarrow> Inl e | Inr st3 \<Rightarrow> Inr (True, st3)))))"
  by pat_completeness auto
termination
proof (relation "measure (\<lambda>(sc, st). size_k (params st) 0 - cur st)")
  fix sc :: bool and st y :: kmerhash and b :: "bool \<times> kmerhash" and x :: bool
  assume a: "absorb sc st = Inr b" "(x, y) = b" "cur y + 1 < size_k (params y) 0"
  from a(1) a(2) have "params y = params st \<and> cur st \<le> cur y"
    using absorb_cur [of sc st x y] by simp
  with a(3)
  show "((sc, y\<lparr>cur := cur y + 1\<rparr>), sc, st)
          \<in> measure (\<lambda>(sc, st). size_k (params st) 0 - cur st)"
    by auto
qed simp

declare kmerhash_iterator.simps [simp del]

text \<open>
  The caller's loop, \<^verbatim>\<open>while (kmerhash_iterator (kmer)) ...\<close>, cut after \<open>n\<close> calls: the state
  \<open>n\<close> calls leave, whatever they return.
\<close>

fun iterate :: "bool \<Rightarrow> nat \<Rightarrow> kmerhash \<Rightarrow> error + kmerhash" where
  "iterate sc 0 st = Inr st"
| "iterate sc (Suc n) st =
     (case kmerhash_iterator sc st of Inl e \<Rightarrow> Inl e | Inr (r, st') \<Rightarrow> iterate sc n st')"

section \<open>Notions used to state the properties\<close>

text \<open>
  What a call leaves alone (the configuration, the bound sequence, the sizes of the output
  arrays), and what the emission loops leave alone (the registers and the cursor).
\<close>

definition same_frame :: "kmerhash \<Rightarrow> kmerhash \<Rightarrow> bool" where
  "same_frame st st' \<longleftrightarrow>
     params st' = params st \<and> dna st' = dna st \<and> n_dna st' = n_dna st \<and>
     length (hash st') = length (hash st) \<and> length (kmer st') = length (kmer st)"

definition same_regs :: "kmerhash \<Rightarrow> kmerhash \<Rightarrow> bool" where
  "same_regs st st' \<longleftrightarrow>
     forward st' = forward st \<and> reverse st' = reverse st \<and> cur st' = cur st"

text \<open>
  The table, the bits a symbol takes and the test a row passes to be shifted in, for a
  value of \<open>dense\<close>: the three branches of the iterator side by side.
\<close>

definition table_of :: "nat \<Rightarrow> (u8 \<times> u8) list" where
  "table_of dn = (if dn = 2 then dna_in_1_bits else if dn = 1 then dna_in_2_bits else dna_in_4_bits)"

definition bits_of :: "nat \<Rightarrow> nat" where
  "bits_of dn = (if dn = 2 then 1 else if dn = 1 then 2 else 4)"

definition valid_row :: "nat \<Rightarrow> u8 \<times> u8 \<Rightarrow> bool" where
  "valid_row dn c \<longleftrightarrow> (if dn = 2 then \<not> 1 < fst c else if dn = 1 then \<not> 3 < fst c else True)"

text \<open>
  The rows of the symbols a run has shifted in when it has read the bytes \<open>d\<close>, oldest
  first: the bytes the skip loops pass over are left out. (A row index that fell outside
  the table ends the run with an error, so it never contributes.)
\<close>

definition row_of :: "bool \<Rightarrow> nat \<Rightarrow> char \<Rightarrow> u8 \<times> u8" where
  "row_of sc dn c = table_of dn ! nat (char_index sc c)"

definition absorbed :: "bool \<Rightarrow> nat \<Rightarrow> string \<Rightarrow> (u8 \<times> u8) list" where
  "absorbed sc dn d = filter (valid_row dn) (map (row_of sc dn) d)"

text \<open>The registers after shifting a list of rows into cleared registers.\<close>

definition regs_of :: "nat \<Rightarrow> bool \<Rightarrow> (u8 \<times> u8) list \<Rightarrow> (u64 \<times> u64) \<times> (u64 \<times> u64)" where
  "regs_of b two cs = fold (shift_regs b two) cs ((0, 0), (0, 0))"

text \<open>The registers of a state are those of the symbols read up to its cursor.\<close>

definition tracks :: "bool \<Rightarrow> kmerhash \<Rightarrow> bool" where
  "tracks sc st \<longleftrightarrow>
     cur st \<le> n_dna st \<and>
     (forward st, reverse st) =
       regs_of (bits_of (dense (params st))) (n2 (params st) \<noteq> 0)
         (absorbed sc (dense (params st)) (take (cur st) (dna st)))"

text \<open>
  Reading the registers back. \<open>ext b k w\<close> is the \<open>b\<close>-bit field of \<open>w\<close> at bit \<open>k\<close>.
  \<open>fsym b f q\<close> is symbol \<open>q\<close> of the forward pair counted from the low end of
  \<^verbatim>\<open>forward[0]\<close> on into \<^verbatim>\<open>forward[1]\<close>; \<open>rsym b r q\<close> is symbol \<open>q\<close> of the reverse pair
  counted from the high end of \<^verbatim>\<open>reverse[1]\<close> on into \<^verbatim>\<open>reverse[0]\<close>. \<open>capacity\<close> is the
  number of symbols the registers in use hold: one word when \<^verbatim>\<open>n2\<close> is 0, else two.
\<close>

definition ext :: "nat \<Rightarrow> nat \<Rightarrow> u64 \<Rightarrow> u8" where
  "ext b k w = ucast (take_bit b (drop_bit k w))"

definition fsym :: "nat \<Rightarrow> u64 \<times> u64 \<Rightarrow> nat \<Rightarrow> u8" where
  "fsym b f q =
     (if (q + 1) * b \<le> 64 then ext b (q * b) (fst f) else ext b (q * b - 64) (snd f))"

definition rsym :: "nat \<Rightarrow> u64 \<times> u64 \<Rightarrow> nat \<Rightarrow> u8" where
  "rsym b r q =
     (if (q + 1) * b \<le> 64 then ext b (64 - (q + 1) * b) (snd r)
      else ext b (128 - (q + 1) * b) (fst r))"

definition capacity :: "nat \<Rightarrow> bool \<Rightarrow> nat" where
  "capacity b two = (if two then 128 else 64) div b"

text \<open>
  The complement of a forward code, in the words of the specification: the class bit is
  kept at 1 bit a symbol, the nucleotide is complemented (A with T, C with G) at 2 bits,
  and at 4 bits the set of bases is complemented member by member, which mirrors the
  four bits.
\<close>

definition complement_code :: "nat \<Rightarrow> u8 \<Rightarrow> u8" where
  "complement_code dn f =
     (if dn = 2 then f
      else if dn = 1 then 3 - f
      else push_bit 3 (f AND 1) OR push_bit 1 (f AND 2) OR drop_bit 1 (f AND 4) OR drop_bit 3 (f AND 8))"

text \<open>What a run left: the cursor and the raw canonical value of length \<open>j\<close>.\<close>

definition kmer_at :: "nat \<Rightarrow> error + kmerhash \<Rightarrow> error + nat \<times> u64" where
  "kmer_at j r = (case r of Inl e \<Rightarrow> Inl e | Inr st \<Rightarrow> Inr (cur st, kmer st ! j))"

text \<open>A call returned true and left the cursor at \<open>c\<close>.\<close>

definition returned_at :: "nat \<Rightarrow> error + (bool \<times> kmerhash) \<Rightarrow> bool" where
  "returned_at c r = (case r of Inl e \<Rightarrow> False | Inr (b, st) \<Rightarrow> b \<and> cur st = c)"

text \<open>
  The other strand of a sequence: the complements of its bases, in reverse order.
\<close>

definition complement_base :: "char \<Rightarrow> char" where
  "complement_base c =
     (if c = CHR ''A'' then CHR ''T'' else if c = CHR ''T'' then CHR ''A''
      else if c = CHR ''C'' then CHR ''G'' else if c = CHR ''G'' then CHR ''C'' else c)"

definition reverse_complement :: "string \<Rightarrow> string" where
  "reverse_complement d = rev (map complement_base d)"

section \<open>Concrete inputs\<close>

text \<open>
  A hash function and a content of fresh memory to run the code on: a polynomial hash
  over the bytes, started from the seed, and memory that happens to be all zero.
\<close>

definition test_hash :: "u8 list \<Rightarrow> u64 \<Rightarrow> u64" where
  "test_hash bs s = fold (\<lambda>b h. h * 31 + ucast b) bs s"

definition zero_mem :: kmer_params where
  "zero_mem = \<lparr>mask1 = (\<lambda>k. 0), mask2 = (\<lambda>k. 0), seed = (\<lambda>k. 0), n1 = 0, n2 = 0,
     shift1 = (\<lambda>k. 0), shift2 = (\<lambda>k. 0), nbytes = (\<lambda>k. 0), size_k = (\<lambda>k. 0), dense = 0,
     kmer_class_mode = 0, hashfunction = (\<lambda>bs s. 0), ref_counter = 0\<rparr>"

text \<open>A state created for a mode and bound to a sequence with its length.\<close>

definition start :: "int \<Rightarrow> string \<Rightarrow> kmerhash" where
  "start mode d =
     link_kmerhash_to_dna_sequence (new_kmerhash test_hash zero_mem mode) d (length d)"

text \<open>Fourteen bases whose two strands differ in their last twelve bases.\<close>

definition dna_CA13 :: string where
  "dna_CA13 = ''CAAAAAAAAAAAAA''"

text \<open>Twenty times the same base.\<close>

definition dna_T20 :: string where
  "dna_T20 = ''TTTTTTTTTTTTTTTTTTTT''"

section \<open>The configuration \<^verbatim>\<open>new_kmer_params\<close> builds\<close>

text \<open>What the two loops leave in the struct: first the fields they do not touch.\<close>

lemma fill1_scalars [simp]:
  "n1 (fill1 r b j p) = n1 p" "n2 (fill1 r b j p) = n2 p" "dense (fill1 r b j p) = dense p"
  "kmer_class_mode (fill1 r b j p) = kmer_class_mode p"
  "hashfunction (fill1 r b j p) = hashfunction p" "ref_counter (fill1 r b j p) = ref_counter p"
  "mask2 (fill1 r b j p) = mask2 p" "shift2 (fill1 r b j p) = shift2 p"
  by (simp_all add: fill1_def Let_def)

lemma fill2_scalars [simp]:
  "n1 (fill2 r b j p) = n1 p" "n2 (fill2 r b j p) = n2 p" "dense (fill2 r b j p) = dense p"
  "kmer_class_mode (fill2 r b j p) = kmer_class_mode p"
  "hashfunction (fill2 r b j p) = hashfunction p" "ref_counter (fill2 r b j p) = ref_counter p"
  "mask1 (fill2 r b j p) = mask1 p" "shift1 (fill2 r b j p) = shift1 p"
  by (simp_all add: fill2_def Let_def)

lemma fold_fill1_scalars [simp]:
  "n1 (fold (fill1 r b) js p) = n1 p" "n2 (fold (fill1 r b) js p) = n2 p"
  "dense (fold (fill1 r b) js p) = dense p"
  "kmer_class_mode (fold (fill1 r b) js p) = kmer_class_mode p"
  "hashfunction (fold (fill1 r b) js p) = hashfunction p"
  "ref_counter (fold (fill1 r b) js p) = ref_counter p"
  "mask2 (fold (fill1 r b) js p) = mask2 p" "shift2 (fold (fill1 r b) js p) = shift2 p"
  by (induction js arbitrary: p; simp)+

lemma fold_fill2_scalars [simp]:
  "n1 (fold (fill2 r b) js p) = n1 p" "n2 (fold (fill2 r b) js p) = n2 p"
  "dense (fold (fill2 r b) js p) = dense p"
  "kmer_class_mode (fold (fill2 r b) js p) = kmer_class_mode p"
  "hashfunction (fold (fill2 r b) js p) = hashfunction p"
  "ref_counter (fold (fill2 r b) js p) = ref_counter p"
  "mask1 (fold (fill2 r b) js p) = mask1 p" "shift1 (fold (fill2 r b) js p) = shift1 p"
  by (induction js arbitrary: p; simp)+


lemma mask1_fold_fill1:
  "mask1 (fold (fill1 r b) [0..<n] p) k =
     (if k < n then tbl_mask ! (idx_mode ! r ! 0 ! k) else mask1 p k)"
  by (induction n) (simp_all add: fill1_def Let_def)

lemma shift1_fold_fill1:
  "shift1 (fold (fill1 r b) [0..<n] p) k =
     (if k < n then tbl_shift ! (idx_mode ! r ! 0 ! k) else shift1 p k)"
  by (induction n) (simp_all add: fill1_def Let_def)

lemma seed_fold_fill1:
  "seed (fold (fill1 r b) [0..<n] p) k =
     (if k < n then ucast (tbl_seed ! (idx_mode ! r ! 0 ! k)) else seed p k)"
  by (induction n) (simp_all add: fill1_def Let_def)

lemma nbytes_fold_fill1:
  "nbytes (fold (fill1 r b) [0..<n] p) k =
     (if k < n then tbl_nbyte ! (idx_mode ! r ! 0 ! k) else nbytes p k)"
  by (induction n) (simp_all add: fill1_def Let_def)

lemma size_k_fold_fill1:
  "size_k (fold (fill1 r b) [0..<n] p) k =
     (if k < n then tbl_nbyte ! (idx_mode ! r ! 0 ! k) * b else size_k p k)"
  by (induction n) (simp_all add: fill1_def Let_def)

lemma mask2_fold_fill2:
  "mask2 (fold (fill2 r b) [0..<n] p) k =
     (if k < n then tbl_mask ! (idx_mode ! r ! 1 ! k) else mask2 p k)"
  by (induction n) (simp_all add: fill2_def Let_def)

lemma shift2_fold_fill2:
  "shift2 (fold (fill2 r b) [0..<n] p) k =
     (if k < n then tbl_shift ! (idx_mode ! r ! 1 ! k) else shift2 p k)"
  by (induction n) (simp_all add: fill2_def Let_def)

lemma seed_fold_fill2:
  "seed (fold (fill2 r b) [0..<n] p) k =
     (if k < n then ucast (drop_bit 2 (tbl_seed ! (idx_mode ! r ! 1 ! k))) + 0x420314a1d
      else seed p k)"
  by (induction n) (simp_all add: fill2_def Let_def)

lemma fill2_wide_slots:
  "nbytes (fill2 r b j p) k =
     (if k = j + n1 p then tbl_nbyte ! (idx_mode ! r ! 1 ! j) + 8 else nbytes p k)"
  "size_k (fill2 r b j p) k =
     (if k = j + n1 p then (tbl_nbyte ! (idx_mode ! r ! 1 ! j) + 8) * b else size_k p k)"
  by (simp_all add: fill2_def Let_def)

lemma nbytes_fold_fill2:
  "nbytes (fold (fill2 r b) [0..<n] p) k =
     (if n1 p \<le> k \<and> k < n1 p + n then tbl_nbyte ! (idx_mode ! r ! 1 ! (k - n1 p)) + 8
      else nbytes p k)"
  by (induction n) (auto simp add: fill2_wide_slots)

lemma size_k_fold_fill2:
  "size_k (fold (fill2 r b) [0..<n] p) k =
     (if n1 p \<le> k \<and> k < n1 p + n then (tbl_nbyte ! (idx_mode ! r ! 1 ! (k - n1 p)) + 8) * b
      else size_k p k)"
  by (induction n) (auto simp add: fill2_wide_slots)

lemmas params_slots = mask1_fold_fill1 shift1_fold_fill1 seed_fold_fill1 nbytes_fold_fill1
  size_k_fold_fill1 mask2_fold_fill2 shift2_fold_fill2 seed_fold_fill2 nbytes_fold_fill2
  size_k_fold_fill2

lemma n1_modes:
  "n1 (new_kmer_params H p0 0) = 2" "n1 (new_kmer_params H p0 1) = 4"
  "n1 (new_kmer_params H p0 2) = 5" "n1 (new_kmer_params H p0 3) = 7"
  "n1 (new_kmer_params H p0 4) = 7" "n1 (new_kmer_params H p0 5) = 2"
  by (simp_all add: new_kmer_params_def Let_def mode_row_def n_idx_def)

lemma n2_modes:
  "n2 (new_kmer_params H p0 0) = 0" "n2 (new_kmer_params H p0 1) = 2"
  "n2 (new_kmer_params H p0 2) = 3" "n2 (new_kmer_params H p0 3) = 0"
  "n2 (new_kmer_params H p0 4) = 4" "n2 (new_kmer_params H p0 5) = 2"
  by (simp_all add: new_kmer_params_def Let_def mode_row_def n_idx_def)

lemma fill1_mode:
  "fill1 r b j (p\<lparr>kmer_class_mode := m\<rparr>) = (fill1 r b j p)\<lparr>kmer_class_mode := m\<rparr>"
  by (simp add: fill1_def Let_def)

lemma fill2_mode:
  "fill2 r b j (p\<lparr>kmer_class_mode := m\<rparr>) = (fill2 r b j p)\<lparr>kmer_class_mode := m\<rparr>"
  by (simp add: fill2_def Let_def)

lemma fold_fill1_mode:
  "fold (fill1 r b) js (p\<lparr>kmer_class_mode := m\<rparr>) = (fold (fill1 r b) js p)\<lparr>kmer_class_mode := m\<rparr>"
  by (induction js arbitrary: p) (simp_all add: fill1_mode)

lemma fold_fill2_mode:
  "fold (fill2 r b) js (p\<lparr>kmer_class_mode := m\<rparr>) = (fold (fill2 r b) js p)\<lparr>kmer_class_mode := m\<rparr>"
  by (induction js arbitrary: p) (simp_all add: fill2_mode)

lemma mode_row_default: "mode < 0 \<or> 5 < mode \<Longrightarrow> mode_row mode = mode_row 3"
  by (auto simp: mode_row_def)


text \<open>
  C9. Claimed: for modes 0 to 5 in this order the number of configured lengths
  \<open>n1 + n2\<close> is 2, 4, 6, 8, 11 and 7. The switch does not take the rows of \<^verbatim>\<open>_idx_mode\<close>
  in order: mode 1 takes row 2 and has 6 lengths, not 4.
\<close>

theorem C9_mode1_has_six_lengths:
  "n1 (new_kmer_params test_hash zero_mem 1) + n2 (new_kmer_params test_hash zero_mem 1) \<noteq> 4"
  by (simp add: n1_modes n2_modes)

text \<open>
  C9, as the code has it: for modes 0, 1, 2, 3, 4, 5 the number of configured lengths
  \<open>n1 + n2\<close> is 2, 6, 8, 7, 11, 4; mode 0 ("fastest (2 kmer sizes)") has exactly two
  lengths, both single-word (\<open>n2 = 0\<close>), and mode 4 ("all 11 kmer sizes") has exactly 11.
\<close>

theorem C9_lengths_per_mode:
  "n1 (new_kmer_params H p0 0) + n2 (new_kmer_params H p0 0) = 2 \<and>
   n1 (new_kmer_params H p0 1) + n2 (new_kmer_params H p0 1) = 6 \<and>
   n1 (new_kmer_params H p0 2) + n2 (new_kmer_params H p0 2) = 8 \<and>
   n1 (new_kmer_params H p0 3) + n2 (new_kmer_params H p0 3) = 7 \<and>
   n1 (new_kmer_params H p0 4) + n2 (new_kmer_params H p0 4) = 11 \<and>
   n1 (new_kmer_params H p0 5) + n2 (new_kmer_params H p0 5) = 4 \<and>
   n1 (new_kmer_params H p0 0) = 2 \<and> n2 (new_kmer_params H p0 0) = 0"
  by (simp add: n1_modes n2_modes)

theorem C9_lengths_per_mode_witness:
  "n1 (new_kmer_params test_hash zero_mem 0) + n2 (new_kmer_params test_hash zero_mem 0) = 2 \<and>
   n1 (new_kmer_params test_hash zero_mem 1) + n2 (new_kmer_params test_hash zero_mem 1) = 6 \<and>
   n1 (new_kmer_params test_hash zero_mem 4) + n2 (new_kmer_params test_hash zero_mem 4) = 11 \<and>
   n2 (new_kmer_params test_hash zero_mem 0) = 0"
  using C9_lengths_per_mode [of test_hash zero_mem] by simp

text \<open>
  C10. For every mode outside 0..5 \<^verbatim>\<open>new_kmer_params\<close> returns a configuration: the one of
  mode 3 (whose \<^verbatim>\<open>case\<close> label the \<^verbatim>\<open>default\<close> label shares), except for the recorded mode.
  The function is total over the integers.
\<close>

theorem C10_out_of_range_mode_is_mode3:
  "mode < 0 \<or> 5 < mode \<Longrightarrow>
   new_kmer_params H p0 mode = (new_kmer_params H p0 3)\<lparr>kmer_class_mode := mode\<rparr>"
proof -
  assume m: "mode < 0 \<or> 5 < mode"
  have c: "\<And>(q :: kmer_params) x y. q\<lparr>kmer_class_mode := x, dense := y\<rparr> = q\<lparr>dense := y, kmer_class_mode := x\<rparr>"
    "\<And>(q :: kmer_params) x y z. q\<lparr>kmer_class_mode := x, n1 := y, n2 := z\<rparr> = q\<lparr>n1 := y, n2 := z, kmer_class_mode := x\<rparr>"
    by simp_all
  show ?thesis
    unfolding new_kmer_params_def Let_def mode_row_default [OF m]
    by (simp add: c fold_fill1_mode fold_fill2_mode)
qed

theorem C10_out_of_range_mode_witness:
  "new_kmer_params test_hash zero_mem 7 =
     (new_kmer_params test_hash zero_mem 3)\<lparr>kmer_class_mode := 7\<rparr> \<and>
   new_kmer_params test_hash zero_mem (- 1) =
     (new_kmer_params test_hash zero_mem 3)\<lparr>kmer_class_mode := - 1\<rparr>"
  using C10_out_of_range_mode_is_mode3 [of 7 test_hash zero_mem]
    C10_out_of_range_mode_is_mode3 [of "- 1" test_hash zero_mem]
  by simp

text \<open>
  C5. Claimed: every configured length is hashed with a seed of its own that
  \<^verbatim>\<open>new_kmer_params\<close> initialised, the primary seed for a single-word length and the
  secondary seed, stored in the slot the iterator uses, for a double-word length.
  In mode 1 (four single-word and two double-word lengths) the second loop stores the
  secondary seeds in slots 0 and 1, over the primary seeds of the first two single-word
  lengths, and never writes slots 4 and 5, which the iterator reads for the double-word
  lengths (\<open>emit2\<close> uses slot \<open>n1 + k\<close>): they keep what the fresh memory held.
\<close>

theorem C5_mode1_seed_slots:
  "n1 (new_kmer_params H p0 1) = 4 \<and> n2 (new_kmer_params H p0 1) = 2 \<and>
   seed (new_kmer_params H p0 1) 0 = ucast (drop_bit 2 (tbl_seed ! 2)) + 0x420314a1d \<and>
   seed (new_kmer_params H p0 1) 0 \<noteq> ucast (tbl_seed ! 0) \<and>
   seed (new_kmer_params H p0 1) 4 = seed p0 4 \<and>
   seed (new_kmer_params H p0 1) 5 = seed p0 5"
  by (simp add: new_kmer_params_def Let_def mode_row_def n_idx_def params_slots idx_mode_def
      tbl_seed_def)

section \<open>The symbol tables and the lookups of the iterator\<close>

text \<open>The rows of the three tables after the initialiser.\<close>

lemma len_tables [simp]:
  "length dna_in_4_bits = 256" "length dna_in_2_bits = 256" "length dna_in_1_bits = 256"
  by (simp_all add: dna_in_4_bits_def dna_in_2_bits_def dna_in_1_bits_def set_rows_def)

lemma of_char_less_256: "(of_char c :: nat) < 256"
proof -
  have "(of_char c :: nat) mod 256 = of_char c" by (rule of_char_mod_256)
  then show ?thesis by (metis mod_less_divisor zero_less_numeral)
qed

lemma char_index_unsigned: "char_index False c = int (of_char c)"
  by (simp add: char_index_def)

lemma char_index_low: "(of_char c :: nat) < 128 \<Longrightarrow> char_index sc c = int (of_char c)"
  by (simp add: char_index_def)

lemma char_index_signed_high: "128 \<le> (of_char c :: nat) \<Longrightarrow> char_index True c < 0"
  using of_char_less_256 [of c] by (simp add: char_index_def)

lemma tbl_at_in_range:
  "length t = 256 \<Longrightarrow> (of_char c :: nat) < 128 \<or> \<not> sc \<Longrightarrow>
   tbl_at t (char_index sc c) = Inr (t ! of_char c)"
  using of_char_less_256 [of c] by (auto simp: tbl_at_def char_index_def)

lemma dna_in_2_bits_rows:
  "k < 256 \<Longrightarrow> fst (dna_in_2_bits ! k) \<le> 3 \<or> dna_in_2_bits ! k = (4, 4)"
  by (simp add: dna_in_2_bits_def set_rows_def nth_list_update)

lemma dna_in_1_bits_rows:
  "k < 256 \<Longrightarrow> fst (dna_in_1_bits ! k) \<le> 1 \<or> dna_in_1_bits ! k = (4, 4)"
  by (simp add: dna_in_1_bits_def set_rows_def nth_list_update)

lemma dna_in_4_bits_other:
  assumes "c \<notin> set ''ABCDGHKMNORSTUVWXY?-''"
  shows "dna_in_4_bits ! of_char c = (0, 0)"
proof -
  from assms have "\<forall>d \<in> set ''ABCDGHKMNORSTUVWXY?-''. (of_char c :: nat) \<noteq> of_char d"
    by (metis of_char_eq_iff)
  then have "(of_char c :: nat) \<notin> {65, 66, 67, 68, 71, 72, 75, 77, 78, 79, 82, 83, 84, 85, 86, 87, 88, 89, 63, 45}"
    by (simp del: of_char_eq_iff)
  with of_char_less_256 [of c] show ?thesis
    by (simp add: dna_in_4_bits_def set_rows_def nth_list_update)
qed

lemma dna_in_4_bits_any:
  "c \<in> set ''NOX?'' \<Longrightarrow> dna_in_4_bits ! of_char c = (15, 15)"
  by (auto simp add: dna_in_4_bits_def set_rows_def nth_list_update)

lemma dna_in_4_bits_ones_only:
  assumes "fst (dna_in_4_bits ! of_char c) = 15 \<or> snd (dna_in_4_bits ! of_char c) = 15"
  shows "c \<in> set ''NOX?''"
proof -
  have "(of_char c :: nat) \<in> {78, 79, 88, 63}"
    using assms of_char_less_256 [of c]
    by (simp add: dna_in_4_bits_def set_rows_def nth_list_update split: if_splits)
  then have "\<exists>d \<in> set ''NOX?''. (of_char c :: nat) = of_char d"
    by (simp del: of_char_eq_iff)
  then show ?thesis
    by (metis of_char_eq_iff)
qed


text \<open>The state \<^verbatim>\<open>new_kmerhash\<close> and \<^verbatim>\<open>link_kmerhash_to_dna_sequence\<close> hand to the iterator.\<close>

lemma zero_fill_length: "length (fold (\<lambda>k h. h[k := 0 :: u64]) ks h) = length h"
  by (induction ks arbitrary: h) simp_all

lemma zero_fill_nth:
  "k < length h \<Longrightarrow> fold (\<lambda>k h. h[k := 0 :: u64]) [0..<m] h ! k = (if k < m then 0 else h ! k)"
  by (induction m) (auto simp: zero_fill_length nth_list_update less_Suc_eq)

lemma zero_fill: "length h = n \<Longrightarrow> fold (\<lambda>k h. h[k := 0 :: u64]) [0..<n] h = replicate n 0"
  by (rule nth_equalityI) (simp_all add: zero_fill_length zero_fill_nth)

lemma link_new_fields:
  "params (link_kmerhash_to_dna_sequence (new_kmerhash H p0 mode) d len) = new_kmer_params H p0 mode"
  "dna (link_kmerhash_to_dna_sequence (new_kmerhash H p0 mode) d len) = d"
  "n_dna (link_kmerhash_to_dna_sequence (new_kmerhash H p0 mode) d len) = len"
  "cur (link_kmerhash_to_dna_sequence (new_kmerhash H p0 mode) d len) = 0"
  "forward (link_kmerhash_to_dna_sequence (new_kmerhash H p0 mode) d len) = (0, 0)"
  "reverse (link_kmerhash_to_dna_sequence (new_kmerhash H p0 mode) d len) = (0, 0)"
  "hash (link_kmerhash_to_dna_sequence (new_kmerhash H p0 mode) d len) =
     replicate (n1 (new_kmer_params H p0 mode) + n2 (new_kmer_params H p0 mode)) 0"
  "kmer (link_kmerhash_to_dna_sequence (new_kmerhash H p0 mode) d len) =
     replicate (n1 (new_kmer_params H p0 mode)) 0"
  by (simp_all add: link_kmerhash_to_dna_sequence_def new_kmerhash_def Let_def zero_fill)

lemma dense_modes:
  "dense (new_kmer_params H p0 0) = 1" "dense (new_kmer_params H p0 1) = 1"
  "dense (new_kmer_params H p0 2) = 0" "dense (new_kmer_params H p0 3) = 1"
  "dense (new_kmer_params H p0 4) = 0" "dense (new_kmer_params H p0 5) = 2"
  by (simp_all add: new_kmer_params_def Let_def mode_row_def)

text \<open>
  Where \<^verbatim>\<open>char\<close> is unsigned, or the byte is below 128, the row the iterator reads is
  inside each table, and a row the initialiser did not list holds the default pair:
  \<open>(4, 4)\<close> at 1 and 2 bits (\<open>dna_in_2_bits_rows\<close>, \<open>dna_in_1_bits_rows\<close>), which both
  skip tests (\<^verbatim>\<open>> 3\<close> and \<^verbatim>\<open>> 1\<close>) reject.
\<close>

lemma lookup_in_table:
  "(of_char c :: nat) < 128 \<or> \<not> sc \<Longrightarrow>
   tbl_at dna_in_4_bits (char_index sc c) = Inr (dna_in_4_bits ! of_char c) \<and>
   tbl_at dna_in_2_bits (char_index sc c) = Inr (dna_in_2_bits ! of_char c) \<and>
   tbl_at dna_in_1_bits (char_index sc c) = Inr (dna_in_1_bits ! of_char c)"
  by (simp add: tbl_at_in_range)

lemma high_byte_row: "read_code True t [CHR 0x80] 0 = Inl OutOfBounds"
  by (simp add: read_code_def tbl_at_def char_index_def)

lemma high_byte_skip: "skip_loop True t thr [CHR 0x80] (Suc 0) 0 = Inl OutOfBounds"
  by (subst skip_loop.simps) (simp add: high_byte_row)

lemma high_byte_absorb:
  "dna st = [CHR 0x80] \<Longrightarrow> n_dna st = 1 \<Longrightarrow> cur st = 0 \<Longrightarrow> absorb True st = Inl OutOfBounds"
  by (simp add: absorb_def high_byte_row high_byte_skip)

lemma high_byte_iterator:
  "dna st = [CHR 0x80] \<Longrightarrow> n_dna st = 1 \<Longrightarrow> cur st = 0 \<Longrightarrow>
   kmerhash_iterator True st = Inl OutOfBounds"
  by (subst kmerhash_iterator.simps) (simp add: high_byte_absorb)

text \<open>
  C7. Claimed: for every byte 0..255 of the bound sequence every lookup of the iterator is
  inside the 256-row table. Where \<^verbatim>\<open>char\<close> is signed, the byte \<^verbatim>\<open>0x80\<close> converts to the
  index \<open>-128\<close>, and the first call on a sequence holding it reads outside the table, at
  each of the three densities (modes 2, 0 and 5).
\<close>

theorem C7_signed_char_byte_outside_table:
  "char_index True (CHR 0x80) = - 128 \<and>
   read_code True dna_in_4_bits [CHR 0x80] 0 = Inl OutOfBounds \<and>
   kmerhash_iterator True (start 2 [CHR 0x80]) = Inl OutOfBounds \<and>
   kmerhash_iterator True (start 0 [CHR 0x80]) = Inl OutOfBounds \<and>
   kmerhash_iterator True (start 5 [CHR 0x80]) = Inl OutOfBounds"
  by (simp add: high_byte_iterator high_byte_row start_def link_new_fields char_index_def)

text \<open>
  C8. Claimed: at 4-bit density every unrecognised byte is given the all-ones code \<^verbatim>\<open>0xF\<close>,
  forward and reverse. The initialiser clears every row to \<open>(0, 0)\<close> before it writes the
  listed ones: the unlisted byte \<^verbatim>\<open>Z\<close> has the pair \<open>(0, 0)\<close>, not \<open>(0xF, 0xF)\<close>.
\<close>

theorem C8_unknown_symbol_is_zero:
  "read_code False dna_in_4_bits ''Z'' 0 = Inr (0, 0) \<and>
   read_code False dna_in_4_bits ''Z'' 0 \<noteq> Inr (0xF, 0xF)"
  by (simp add: read_code_def tbl_at_def char_index_def dna_in_4_bits_def set_rows_def)

lemma iterator_true_after_absorb:
  "cur st \<noteq> n_dna st \<Longrightarrow> absorb sc st = Inr (True, st1) \<Longrightarrow>
   kmerhash_iterator sc st \<noteq> Inr (False, st')"
  by (subst kmerhash_iterator.simps) (simp split: sum.split prod.split)

text \<open>
  C8, as the code has it: at 4-bit density (\<open>dense = 0\<close>) the iterator has no skip path.
  With input left, and the row of the byte under the cursor inside the table, the
  branch shifts the pair of that row into the registers without moving the cursor, and
  the call does not return false. A byte outside the listed alphabet
  \<^verbatim>\<open>ABCDGHKMNORSTUVWXY?-\<close> has the pair \<open>(0, 0)\<close>, the same as the gap; the all-ones pair
  \<open>(0xF, 0xF)\<close> is that of \<^verbatim>\<open>N\<close>, \<^verbatim>\<open>O\<close>, \<^verbatim>\<open>X\<close> and \<^verbatim>\<open>?\<close> only.
\<close>

theorem C8_four_bit_never_skips:
  assumes "dense (params st) = 0" and "cur st < length (dna st)" and "cur st \<noteq> n_dna st"
    and "(of_char (dna st ! cur st) :: nat) < 128 \<or> \<not> sc"
  shows "absorb sc st =
           Inr (True, shift_in 4 (n2 (params st) \<noteq> 0) (dna_in_4_bits ! of_char (dna st ! cur st)) st) \<and>
         kmerhash_iterator sc st \<noteq> Inr (False, st') \<and>
         (dna st ! cur st \<notin> set ''ABCDGHKMNORSTUVWXY?-'' \<longrightarrow>
           dna_in_4_bits ! of_char (dna st ! cur st) = (0, 0)) \<and>
         (dna_in_4_bits ! of_char (dna st ! cur st) = (0xF, 0xF) \<longleftrightarrow>
           dna st ! cur st \<in> set ''NOX?'')"
proof -
  have a: "absorb sc st =
           Inr (True, shift_in 4 (n2 (params st) \<noteq> 0) (dna_in_4_bits ! of_char (dna st ! cur st)) st)"
    using assms by (simp add: absorb_def read_code_def tbl_at_in_range)
  have b: "kmerhash_iterator sc st \<noteq> Inr (False, st')"
    using assms(3) a by (rule iterator_true_after_absorb)
  have c: "dna st ! cur st \<notin> set ''ABCDGHKMNORSTUVWXY?-'' \<longrightarrow>
           dna_in_4_bits ! of_char (dna st ! cur st) = (0, 0)"
    using dna_in_4_bits_other by blast
  have d: "dna_in_4_bits ! of_char (dna st ! cur st) = (0xF, 0xF) \<longleftrightarrow>
           dna st ! cur st \<in> set ''NOX?''"
  proof
    assume "dna_in_4_bits ! of_char (dna st ! cur st) = (0xF, 0xF)"
    then have "fst (dna_in_4_bits ! of_char (dna st ! cur st)) = 15 \<or>
               snd (dna_in_4_bits ! of_char (dna st ! cur st)) = 15"
      by simp
    then show "dna st ! cur st \<in> set ''NOX?''"
      by (rule dna_in_4_bits_ones_only)
  next
    assume "dna st ! cur st \<in> set ''NOX?''"
    then show "dna_in_4_bits ! of_char (dna st ! cur st) = (0xF, 0xF)"
      by (rule dna_in_4_bits_any)
  qed
  from a b c d show ?thesis by blast
qed

theorem C8_four_bit_never_skips_witness:
  "absorb False (start 2 ''Z'') =
     Inr (True, shift_in 4 True (0, 0) (start 2 ''Z'')) \<and>
   kmerhash_iterator False (start 2 ''Z'') \<noteq> Inr (False, start 2 ''Z'') \<and>
   dna_in_4_bits ! of_char (CHR ''Z'') = (0, 0)"
proof -
  have d: "dense (params (start 2 ''Z'')) = 0" "cur (start 2 ''Z'') < length (dna (start 2 ''Z''))"
    "cur (start 2 ''Z'') \<noteq> n_dna (start 2 ''Z'')"
    "(of_char (dna (start 2 ''Z'') ! cur (start 2 ''Z'')) :: nat) < 128 \<or> \<not> False"
    by (simp_all add: start_def link_new_fields dense_modes)
  have e: "n2 (params (start 2 ''Z'')) \<noteq> 0" "dna (start 2 ''Z'') ! cur (start 2 ''Z'') = CHR ''Z''"
    by (simp_all add: start_def link_new_fields n2_modes)
  have f: "CHR ''Z'' \<notin> set ''ABCDGHKMNORSTUVWXY?-''" by simp
  from C8_four_bit_never_skips [OF d, where st' = "start 2 ''Z''"] e f
  show ?thesis by simp
qed

section \<open>The frames of a call and the emission loops\<close>

lemma for_each_append:
  "for_each body (ks @ ks') s =
     (case for_each body ks s of Inl e \<Rightarrow> Inl e | Inr s' \<Rightarrow> for_each body ks' s')"
  by (induction ks arbitrary: s) (simp_all split: sum.split)

lemma for_each_upt_Suc:
  "for_each body [0..<Suc n] s =
     (case for_each body [0..<n] s of Inl e \<Rightarrow> Inl e | Inr s' \<Rightarrow> body n s')"
  by (simp add: for_each_append split: sum.split)

lemma same_frame_refl [simp]: "same_frame st st" 
  by (simp add: same_frame_def)

lemma same_regs_refl [simp]: "same_regs st st"
  by (simp add: same_regs_def)

lemma same_frame_trans: "same_frame a b \<Longrightarrow> same_frame b c \<Longrightarrow> same_frame a c"
  by (simp add: same_frame_def)

lemma same_regs_trans: "same_regs a b \<Longrightarrow> same_regs b c \<Longrightarrow> same_regs a c"
  by (simp add: same_regs_def)

lemma emit1_frame: "emit1 k st = Inr st' \<Longrightarrow> same_frame st st' \<and> same_regs st st'"
  by (auto simp: emit1_def Let_def same_frame_def same_regs_def split: if_splits sum.splits)

lemma emit2_frame: "emit2 k st = Inr st' \<Longrightarrow> same_frame st st' \<and> same_regs st st' \<and> kmer st' = kmer st"
  by (auto simp: emit2_def Let_def same_frame_def same_regs_def split: if_splits sum.splits)

lemma for_each_emit1_frame:
  "for_each emit1 ks st = Inr st' \<Longrightarrow> same_frame st st' \<and> same_regs st st'"
proof (induction ks arbitrary: st)
  case Nil
  then show ?case by simp
next
  case (Cons k ks)
  then obtain s where s: "emit1 k st = Inr s" "for_each emit1 ks s = Inr st'"
    by (auto split: sum.splits)
  from emit1_frame [OF s(1)] Cons.IH [OF s(2)] show ?case
    by (blast intro: same_frame_trans same_regs_trans)
qed

lemma for_each_emit2_frame:
  "for_each emit2 ks st = Inr st' \<Longrightarrow> same_frame st st' \<and> same_regs st st' \<and> kmer st' = kmer st"
proof (induction ks arbitrary: st)
  case Nil
  then show ?case by simp
next
  case (Cons k ks)
  then obtain s where s: "emit2 k st = Inr s" "for_each emit2 ks s = Inr st'"
    by (auto split: sum.splits)
  from emit2_frame [OF s(1)] Cons.IH [OF s(2)] show ?case
    by (auto intro: same_frame_trans same_regs_trans)
qed

lemma emit_frame: "emit st = Inr st' \<Longrightarrow> same_frame st st' \<and> same_regs st st'"
  by (auto simp: emit_def split: sum.splits
      dest!: for_each_emit1_frame for_each_emit2_frame intro: same_frame_trans same_regs_trans)


lemma absorb_frame:
  "absorb sc st = Inr (r, st1) \<Longrightarrow>
   same_frame st st1 \<and> cur st \<le> cur st1 \<and> hash st1 = hash st \<and> kmer st1 = kmer st"
  by (auto simp: absorb_def shift_in_def Let_def same_frame_def split: if_splits sum.splits
      dest: skip_loop_ge)

lemma iterator_cases:
  assumes "kmerhash_iterator sc st = Inr (r, st')"
  obtains (at_end) "cur st = n_dna st" "r = False" "st' = st"
  | (skipped) "cur st \<noteq> n_dna st" "absorb sc st = Inr (False, st')" "r = False"
  | (last) st1 where "cur st \<noteq> n_dna st" "absorb sc st = Inr (True, st1)"
      "\<not> cur st1 + 1 < size_k (params st1) 0" "emit (st1\<lparr>cur := cur st1 + 1\<rparr>) = Inr st'" "r = True"
  | (primed) st1 r2 st2 where "cur st \<noteq> n_dna st" "absorb sc st = Inr (True, st1)"
      "cur st1 + 1 < size_k (params st1) 0"
      "kmerhash_iterator sc (st1\<lparr>cur := cur st1 + 1\<rparr>) = Inr (r2, st2)"
      "emit st2 = Inr st'" "r = True"
  using assms
  by (subst (asm) kmerhash_iterator.simps)
    (auto split: if_splits sum.splits prod.splits bool.splits)

lemma iterator_frame:
  "kmerhash_iterator sc st = Inr (r, st') \<Longrightarrow> same_frame st st' \<and> cur st \<le> cur st'"
proof (induction sc st arbitrary: r st' rule: kmerhash_iterator.induct)
  case (1 sc st)
  from "1.prems" show ?case
  proof (cases rule: iterator_cases)
    case at_end
    then show ?thesis by simp
  next
    case skipped
    with absorb_frame show ?thesis by blast
  next
    case (last st1)
    from absorb_frame [OF last(2)] emit_frame [OF last(4)] show ?thesis
      by (auto simp: same_frame_def same_regs_def)
  next
    case (primed st1 r2 st2)
    from "1.IH" [OF primed(1) primed(2) refl refl primed(3) primed(4)]
    have "same_frame (st1\<lparr>cur := cur st1 + 1\<rparr>) st2 \<and> cur (st1\<lparr>cur := cur st1 + 1\<rparr>) \<le> cur st2" .
    with absorb_frame [OF primed(2)] emit_frame [OF primed(5)] show ?thesis
      by (auto simp: same_frame_def same_regs_def)
  qed
qed

lemma iterator_true_emits:
  assumes "kmerhash_iterator sc st = Inr (True, st')"
  obtains st2 where "emit st2 = Inr st'" "same_frame st st2" "cur st < cur st2"
  using assms
proof (cases rule: iterator_cases)
  case (last st1)
  with absorb_frame [OF last(2)] that [of "st1\<lparr>cur := cur st1 + 1\<rparr>"] show ?thesis
    by (auto simp: same_frame_def)
next
  case (primed st1 r2 st2)
  from iterator_frame [OF primed(4)] absorb_frame [OF primed(2)] primed(5) that [of st2]
  show ?thesis
    by (auto simp: same_frame_def)
qed simp_all


lemma mem_read_0: "mem_read buf 0 len = Inr bs \<Longrightarrow> bs = take len buf"
  by (auto simp: mem_read_def split: if_splits)

lemma emit1_at:
  assumes "emit1 k st = Inr st'" and "size_k (params st) k \<le> cur st"
  shows "(k < length (kmer st) \<longrightarrow>
           kmer st' ! k = min (fst (forward st) AND mask1 (params st) k)
                              (drop_bit (shift1 (params st) k) (snd (reverse st)))) \<and>
         (k < length (hash st) \<longrightarrow>
           hash st' ! k = hashfunction (params st)
             (take (nbytes (params st) k)
               (bytes_of_u64 (min (fst (forward st) AND mask1 (params st) k)
                                  (drop_bit (shift1 (params st) k) (snd (reverse st))))))
             (seed (params st) k))"
  using assms
  by (auto simp: emit1_def Let_def min_def not_less split: if_splits sum.splits dest!: mem_read_0)

lemma emit1_other:
  assumes "emit1 k st = Inr st'" and "j \<noteq> k \<or> cur st < size_k (params st) k"
  shows "kmer st' ! j = kmer st ! j \<and> hash st' ! j = hash st ! j"
  using assms
  by (auto simp: emit1_def Let_def split: if_splits sum.splits)

lemma emit2_other:
  assumes "emit2 k st = Inr st'" and "j \<noteq> n1 (params st) + k \<or> cur st < size_k (params st) (n1 (params st) + k)"
  shows "hash st' ! j = hash st ! j"
  using assms
  by (auto simp: emit2_def Let_def split: if_splits sum.splits)

lemma for_each_emit1_other:
  "for_each emit1 [0..<n] st = Inr st' \<Longrightarrow> n \<le> j \<or> cur st < size_k (params st) j \<Longrightarrow>
   kmer st' ! j = kmer st ! j \<and> hash st' ! j = hash st ! j"
proof (induction n arbitrary: st')
  case 0
  then show ?case by simp
next
  case (Suc n)
  from Suc.prems(1) obtain s where s: "for_each emit1 [0..<n] st = Inr s" "emit1 n s = Inr st'"
    by (auto simp: for_each_append split: sum.splits)
  from for_each_emit1_frame [OF s(1)] have f: "params s = params st" "cur s = cur st"
    by (simp_all add: same_frame_def same_regs_def)
  from Suc.prems(2) have "n \<le> j \<or> cur st < size_k (params st) j" by auto
  from Suc.IH [OF s(1) this] emit1_other [OF s(2), of j] Suc.prems(2) f show ?case
    by auto
qed

lemma for_each_emit1_at:
  assumes "for_each emit1 [0..<n] st = Inr st'" and "k < n" and "size_k (params st) k \<le> cur st"
  shows "(k < length (kmer st) \<longrightarrow>
           kmer st' ! k = min (fst (forward st) AND mask1 (params st) k)
                              (drop_bit (shift1 (params st) k) (snd (reverse st)))) \<and>
         (k < length (hash st) \<longrightarrow>
           hash st' ! k = hashfunction (params st)
             (take (nbytes (params st) k)
               (bytes_of_u64 (min (fst (forward st) AND mask1 (params st) k)
                                  (drop_bit (shift1 (params st) k) (snd (reverse st))))))
             (seed (params st) k))"
  using assms
proof (induction n arbitrary: st')
  case 0
  then show ?case by simp
next
  case (Suc n)
  from Suc.prems(1) obtain s where s: "for_each emit1 [0..<n] st = Inr s" "emit1 n s = Inr st'"
    by (auto simp: for_each_append split: sum.splits)
  from for_each_emit1_frame [OF s(1)]
  have f: "params s = params st" "cur s = cur st" "forward s = forward st" "reverse s = reverse st"
    "length (kmer s) = length (kmer st)" "length (hash s) = length (hash st)"
    by (simp_all add: same_frame_def same_regs_def)
  show ?case
  proof (cases "k = n")
    case True
    with emit1_at [OF s(2)] Suc.prems(3) f show ?thesis by simp
  next
    case False
    with Suc.prems(2) have "k < n" by simp
    from Suc.IH [OF s(1) this Suc.prems(3)] emit1_other [OF s(2), of k] False
    show ?thesis by simp
  qed
qed

lemma for_each_emit2_other:
  "for_each emit2 [0..<n] st = Inr st' \<Longrightarrow>
   j < n1 (params st) \<or> n1 (params st) + n \<le> j \<or> cur st < size_k (params st) j \<Longrightarrow>
   hash st' ! j = hash st ! j"
proof (induction n arbitrary: st')
  case 0
  then show ?case by simp
next
  case (Suc n)
  from Suc.prems(1) obtain s where s: "for_each emit2 [0..<n] st = Inr s" "emit2 n s = Inr st'"
    by (auto simp: for_each_append split: sum.splits)
  from for_each_emit2_frame [OF s(1)] have f: "params s = params st" "cur s = cur st"
    by (simp_all add: same_frame_def same_regs_def)
  from Suc.prems(2)
  have "j < n1 (params st) \<or> n1 (params st) + n \<le> j \<or> cur st < size_k (params st) j" by auto
  from Suc.IH [OF s(1) this] emit2_other [OF s(2), of j] Suc.prems(2) f show ?case
    by auto
qed


lemma emit_single:
  assumes "emit st = Inr st'" and "k < n1 (params st)" and "size_k (params st) k \<le> cur st"
    and "k < length (kmer st)" and "k < length (hash st)"
  shows "kmer st' ! k = min (fst (forward st) AND mask1 (params st) k)
                            (drop_bit (shift1 (params st) k) (snd (reverse st))) \<and>
         hash st' ! k = hashfunction (params st)
             (take (nbytes (params st) k)
               (bytes_of_u64 (min (fst (forward st) AND mask1 (params st) k)
                                  (drop_bit (shift1 (params st) k) (snd (reverse st))))))
             (seed (params st) k)"
proof -
  from assms(1) obtain s where s: "for_each emit1 [0..<n1 (params st)] st = Inr s"
    "for_each emit2 [0..<n2 (params s)] s = Inr st'"
    by (auto simp: emit_def split: sum.splits)
  from for_each_emit1_frame [OF s(1)] have f: "params s = params st"
    by (simp add: same_frame_def)
  from for_each_emit2_frame [OF s(2)] have k: "kmer st' = kmer s" by simp
  from for_each_emit2_other [OF s(2), of k] assms(2) f have h: "hash st' ! k = hash s ! k" by simp
  from for_each_emit1_at [OF s(1) assms(2) assms(3)] assms(4) assms(5) k h show ?thesis by simp
qed

lemma emit_below:
  assumes "emit st = Inr st'" and "cur st < size_k (params st) j"
  shows "kmer st' ! j = kmer st ! j \<and> hash st' ! j = hash st ! j"
proof -
  from assms(1) obtain s where s: "for_each emit1 [0..<n1 (params st)] st = Inr s"
    "for_each emit2 [0..<n2 (params s)] s = Inr st'"
    by (auto simp: emit_def split: sum.splits)
  from for_each_emit1_frame [OF s(1)] have f: "params s = params st" "cur s = cur st"
    by (simp_all add: same_frame_def same_regs_def)
  from for_each_emit2_frame [OF s(2)] have k: "kmer st' = kmer s" by simp
  from for_each_emit2_other [OF s(2), of j] assms(2) f have h: "hash st' ! j = hash s ! j" by simp
  from for_each_emit1_other [OF s(1), of j] assms(2) k h show ?thesis by simp
qed

lemma returned_atD: "returned_at c r \<Longrightarrow> \<exists>st'. r = Inr (True, st') \<and> cur st' = c"
  by (auto simp: returned_at_def split: sum.splits)

lemma size_k_mode0:
  "size_k (new_kmer_params H p0 0) 0 = 16" "size_k (new_kmer_params H p0 0) 1 = 32"
  by (simp_all add: new_kmer_params_def Let_def mode_row_def n_idx_def params_slots idx_mode_def
      tbl_nbyte_def)

lemma run_mode0_16: "returned_at 16 (kmerhash_iterator False (start 0 ''ACGTACGTACGTACGT''))"
  by code_simp

text \<open>
  C3. When a call returns true, then for every single-word length \<open>k < n1\<close> whose size the
  cursor has reached, \<open>kmer[k]\<close> is the smaller of \<open>forward[0] AND mask1[k]\<close> and
  \<open>reverse[1] >> shift1[k]\<close>, and \<open>hash[k]\<close> is the hash function applied to the first
  \<open>nbytes[k]\<close> bytes of that value with the seed \<open>seed[k]\<close>. The state the call started
  from has output arrays that hold index \<open>k\<close>.
\<close>

theorem C3_single_word_emission:
  assumes "kmerhash_iterator sc st = Inr (True, st')"
    and "k < n1 (params st)" and "size_k (params st) k \<le> cur st'"
    and "k < length (kmer st)" and "k < length (hash st)"
  shows "kmer st' ! k = min (fst (forward st') AND mask1 (params st') k)
                            (drop_bit (shift1 (params st') k) (snd (reverse st'))) \<and>
         hash st' ! k = hashfunction (params st')
             (take (nbytes (params st') k) (bytes_of_u64 (kmer st' ! k)))
             (seed (params st') k)"
proof -
  from assms(1) obtain st2 where e: "emit st2 = Inr st'" and f: "same_frame st st2"
    by (rule iterator_true_emits)
  from emit_frame [OF e] f
  have g: "params st' = params st2" "params st2 = params st" "forward st' = forward st2"
    "reverse st' = reverse st2" "cur st' = cur st2"
    "length (kmer st2) = length (kmer st)" "length (hash st2) = length (hash st)"
    by (simp_all add: same_frame_def same_regs_def)
  from emit_single [OF e, of k] assms(2-5) g show ?thesis by simp
qed


theorem C3_single_word_emission_witness:
  "\<exists>st'. kmerhash_iterator False (start 0 ''ACGTACGTACGTACGT'') = Inr (True, st') \<and>
     kmer st' ! 0 = min (fst (forward st') AND mask1 (params st') 0)
                        (drop_bit (shift1 (params st') 0) (snd (reverse st'))) \<and>
     hash st' ! 0 = hashfunction (params st')
        (take (nbytes (params st') 0) (bytes_of_u64 (kmer st' ! 0))) (seed (params st') 0)"
proof -
  from returned_atD [OF run_mode0_16] obtain st'
    where r: "kmerhash_iterator False (start 0 ''ACGTACGTACGTACGT'') = Inr (True, st')"
      and c: "cur st' = 16"
    by blast
  have "0 < n1 (params (start 0 ''ACGTACGTACGTACGT''))"
    "size_k (params (start 0 ''ACGTACGTACGTACGT'')) 0 \<le> cur st'"
    "0 < length (kmer (start 0 ''ACGTACGTACGTACGT''))"
    "0 < length (hash (start 0 ''ACGTACGTACGTACGT''))"
    using c by (simp_all add: start_def link_new_fields n1_modes n2_modes size_k_mode0)
  from C3_single_word_emission [OF r this] r show ?thesis
    by blast
qed

section \<open>The registers follow the symbols read\<close>

lemma read_code_row:
  "read_code sc (table_of dn) d k = Inr c \<Longrightarrow> k < length d \<and> c = row_of sc dn (d ! k)"
  by (auto simp: read_code_def tbl_at_def row_of_def split: if_splits)

lemma absorbed_snoc:
  "k < length d \<Longrightarrow>
   absorbed sc dn (take (Suc k) d) =
     absorbed sc dn (take k d) @ (if valid_row dn (row_of sc dn (d ! k)) then [row_of sc dn (d ! k)] else [])"
  by (simp add: absorbed_def take_Suc_conv_app_nth)

lemma skip_loop_absorbed:
  assumes "skip_loop sc (table_of dn) thr d n k = Inr k'"
    and "\<forall>c. valid_row dn c \<longleftrightarrow> \<not> thr < fst c"
  shows "absorbed sc dn (take k' d) = absorbed sc dn (take k d) \<and>
         (k \<le> n \<longrightarrow> k' \<le> n) \<and>
         (k' < n \<longrightarrow> k' < length d \<and> valid_row dn (row_of sc dn (d ! k')))"
  using assms
proof (induction sc "table_of dn" thr d n k rule: skip_loop.induct)
  case (1 sc thr d n k)
  note run = "1.prems"(1) and v = "1.prems"(2)
  show ?case
  proof (cases "k < n")
    case False
    with run show ?thesis
      by (subst (asm) skip_loop.simps) simp
  next
    case True
    with run obtain c where c: "read_code sc (table_of dn) d k = Inr c"
      by (subst (asm) skip_loop.simps) (auto split: sum.splits)
    from read_code_row [OF c] have k: "k < length d" "c = row_of sc dn (d ! k)" by simp_all
    show ?thesis
    proof (cases "thr < fst c")
      case False
      with run True c have "k' = k"
        by (subst (asm) skip_loop.simps) simp
      moreover from v have "valid_row dn c \<longleftrightarrow> \<not> thr < fst c" by blast
      ultimately show ?thesis using False k True by simp
    next
      case t: True
      with run True c have r: "skip_loop sc (table_of dn) thr d n (k + 1) = Inr k'"
        by (subst (asm) skip_loop.simps) simp
      moreover from v have "valid_row dn c \<longleftrightarrow> \<not> thr < fst c" by blast
      moreover note "1.hyps" [OF True c t r v] skip_loop_ge [OF r] True t k
      ultimately show ?thesis
        by (simp add: absorbed_snoc)
    qed
  qed
qed

lemma regs_of_snoc: "regs_of b two (cs @ [c]) = shift_regs b two c (regs_of b two cs)"
  by (simp add: regs_of_def)

lemma shift_in_fields [simp]:
  "params (shift_in b two c st) = params st" "dna (shift_in b two c st) = dna st"
  "n_dna (shift_in b two c st) = n_dna st" "cur (shift_in b two c st) = cur st"
  "hash (shift_in b two c st) = hash st" "kmer (shift_in b two c st) = kmer st"
  "(forward (shift_in b two c st), reverse (shift_in b two c st)) =
      shift_regs b two c (forward st, reverse st)"
  by (simp_all add: shift_in_def Let_def)

text \<open>One branch with a skip loop, for a table and its threshold.\<close>

lemma skip_branch_tracks:
  assumes sk: "skip_loop sc (table_of dn) thr (dna st) (n_dna st) (cur st) = Inr k"
    and v: "\<forall>c. valid_row dn c \<longleftrightarrow> \<not> thr < fst c"
    and dn: "dense (params st) = dn" and b: "bits_of dn = b"
    and t: "tracks sc st"
  shows "k = n_dna st \<longrightarrow> tracks sc (st\<lparr>cur := k\<rparr>)"
    and "k \<noteq> n_dna st \<longrightarrow> read_code sc (table_of dn) (dna st) k = Inr c \<longrightarrow>
           k < n_dna st \<and>
           tracks sc ((shift_in b (n2 (params st) \<noteq> 0) c (st\<lparr>cur := k\<rparr>))\<lparr>cur := k + 1\<rparr>)"
proof -
  from t have le: "cur st \<le> n_dna st" by (simp add: tracks_def)
  from skip_loop_absorbed [OF sk v] le
  have a: "absorbed sc dn (take k (dna st)) = absorbed sc dn (take (cur st) (dna st))"
    and kn: "k \<le> n_dna st"
    and val: "k < n_dna st \<longrightarrow> k < length (dna st) \<and> valid_row dn (row_of sc dn (dna st ! k))"
    by simp_all
  from t a dn show "k = n_dna st \<longrightarrow> tracks sc (st\<lparr>cur := k\<rparr>)"
    by (auto simp: tracks_def)
  show "k \<noteq> n_dna st \<longrightarrow> read_code sc (table_of dn) (dna st) k = Inr c \<longrightarrow>
           k < n_dna st \<and>
           tracks sc ((shift_in b (n2 (params st) \<noteq> 0) c (st\<lparr>cur := k\<rparr>))\<lparr>cur := k + 1\<rparr>)"
  proof (intro impI)
    assume ne: "k \<noteq> n_dna st" and rc: "read_code sc (table_of dn) (dna st) k = Inr c"
    from ne kn have lt: "k < n_dna st" by simp
    from read_code_row [OF rc] have c: "c = row_of sc dn (dna st ! k)" by simp
    from val lt c have "absorbed sc dn (take (Suc k) (dna st)) = absorbed sc dn (take k (dna st)) @ [c]"
      by (simp add: absorbed_snoc)
    with a have "absorbed sc dn (take (Suc k) (dna st)) = absorbed sc dn (take (cur st) (dna st)) @ [c]"
      by simp
    moreover have "(forward (shift_in b (n2 (params st) \<noteq> 0) c (st\<lparr>cur := k\<rparr>)),
                    reverse (shift_in b (n2 (params st) \<noteq> 0) c (st\<lparr>cur := k\<rparr>))) =
                   shift_regs b (n2 (params st) \<noteq> 0) c (forward st, reverse st)"
      by (simp add: shift_in_def Let_def)
    ultimately show "k < n_dna st \<and>
           tracks sc ((shift_in b (n2 (params st) \<noteq> 0) c (st\<lparr>cur := k\<rparr>))\<lparr>cur := k + 1\<rparr>)"
      using t lt dn b by (simp add: tracks_def regs_of_snoc)
  qed
qed

lemma valid_row_thresholds:
  "\<forall>c. valid_row 2 c \<longleftrightarrow> \<not> 1 < fst c" "\<forall>c. valid_row 1 c \<longleftrightarrow> \<not> 3 < fst c"
  by (simp_all add: valid_row_def)

lemma table_of_simps:
  "table_of 2 = dna_in_1_bits" "table_of 1 = dna_in_2_bits" "table_of (Suc 0) = dna_in_2_bits"
  "dn \<noteq> 2 \<Longrightarrow> dn \<noteq> 1 \<Longrightarrow> table_of dn = dna_in_4_bits"
  by (simp_all add: table_of_def)

lemma absorb_tracks:
  assumes "absorb sc st = Inr (r, st1)" and "tracks sc st" and "cur st \<noteq> n_dna st"
  shows "if r then cur st1 < n_dna st \<and> tracks sc (st1\<lparr>cur := cur st1 + 1\<rparr>)
         else cur st1 = n_dna st \<and> tracks sc st1"
proof -
  consider (one) "dense (params st) = 2" | (two) "dense (params st) = 1"
    | (four) "dense (params st) \<noteq> 2" "dense (params st) \<noteq> 1"
    by blast
  then show ?thesis
  proof cases
    case one
    with assms(1) obtain k where k: "skip_loop sc (table_of 2) 1 (dna st) (n_dna st) (cur st) = Inr k"
      by (auto simp: absorb_def table_of_simps split: sum.splits)
    note br = skip_branch_tracks [OF k valid_row_thresholds(1) one _ assms(2), of 1]
    show ?thesis
    proof (cases "k = n_dna st")
      case True
      with assms(1) one k br(1) show ?thesis
        by (auto simp: absorb_def table_of_simps bits_of_def)
    next
      case False
      with assms(1) one k obtain c where c: "read_code sc (table_of 2) (dna st) k = Inr c"
        and s: "r" "st1 = shift_in 1 (n2 (params st) \<noteq> 0) c (st\<lparr>cur := k\<rparr>)"
        by (auto simp: absorb_def table_of_simps split: sum.splits)
      from br(2) [of c] False c s show ?thesis
        by (simp add: bits_of_def)
    qed
  next
    case two
    with assms(1) obtain k where k: "skip_loop sc (table_of 1) 3 (dna st) (n_dna st) (cur st) = Inr k"
      by (auto simp: absorb_def table_of_simps split: sum.splits)
    note br = skip_branch_tracks [OF k valid_row_thresholds(2) two _ assms(2), of 2]
    show ?thesis
    proof (cases "k = n_dna st")
      case True
      with assms(1) two k br(1) show ?thesis
        by (auto simp: absorb_def table_of_simps bits_of_def)
    next
      case False
      with assms(1) two k obtain c where c: "read_code sc (table_of 1) (dna st) k = Inr c"
        and s: "r" "st1 = shift_in 2 (n2 (params st) \<noteq> 0) c (st\<lparr>cur := k\<rparr>)"
        by (auto simp: absorb_def table_of_simps split: sum.splits)
      from br(2) [of c] False c s show ?thesis
        by (simp add: bits_of_def)
    qed
  next
    case four
    from assms(2) assms(3) have lt: "cur st < n_dna st" by (simp add: tracks_def)
    from assms(1) four obtain c where c: "read_code sc (table_of (dense (params st))) (dna st) (cur st) = Inr c"
      and s: "r" "st1 = shift_in 4 (n2 (params st) \<noteq> 0) c st"
      by (auto simp: absorb_def table_of_simps split: sum.splits)
    from read_code_row [OF c]
    have k: "cur st < length (dna st)" "c = row_of sc (dense (params st)) (dna st ! cur st)"
      by simp_all
    from four have v: "valid_row (dense (params st)) c" "bits_of (dense (params st)) = 4"
      by (simp_all add: valid_row_def bits_of_def)
    from k v have "absorbed sc (dense (params st)) (take (Suc (cur st)) (dna st)) =
        absorbed sc (dense (params st)) (take (cur st) (dna st)) @ [c]"
      by (simp add: absorbed_snoc)
    with assms(2) lt s v show ?thesis
      by (simp add: tracks_def regs_of_snoc shift_in_def Let_def)
  qed
qed

lemma tracks_same:
  "tracks sc st \<Longrightarrow> same_frame st st' \<Longrightarrow> same_regs st st' \<Longrightarrow> tracks sc st'"
  by (simp add: tracks_def same_frame_def same_regs_def)

lemma iterator_tracks:
  "kmerhash_iterator sc st = Inr (r, st') \<Longrightarrow> tracks sc st \<Longrightarrow> tracks sc st'"
proof (induction sc st arbitrary: r st' rule: kmerhash_iterator.induct)
  case (1 sc st)
  from "1.prems"(1) show ?case
  proof (cases rule: iterator_cases)
    case at_end
    with "1.prems"(2) show ?thesis by simp
  next
    case skipped
    from absorb_tracks [OF skipped(2) "1.prems"(2) skipped(1)] show ?thesis by simp
  next
    case (last st1)
    from absorb_tracks [OF last(2) "1.prems"(2) last(1)]
    have "tracks sc (st1\<lparr>cur := cur st1 + 1\<rparr>)" by simp
    with emit_frame [OF last(4)] show ?thesis by (blast intro: tracks_same)
  next
    case (primed st1 r2 st2)
    from absorb_tracks [OF primed(2) "1.prems"(2) primed(1)]
    have "tracks sc (st1\<lparr>cur := cur st1 + 1\<rparr>)" by simp
    from "1.IH" [OF primed(1) primed(2) refl refl primed(3) primed(4) this]
    have "tracks sc st2" .
    with emit_frame [OF primed(5)] show ?thesis by (blast intro: tracks_same)
  qed
qed

lemma iterate_tracks:
  "iterate sc n st = Inr st' \<Longrightarrow> tracks sc st \<Longrightarrow> tracks sc st' \<and> same_frame st st'"
proof (induction n arbitrary: st)
  case 0
  then show ?case by simp
next
  case (Suc n)
  from Suc.prems(1) obtain r s where s: "kmerhash_iterator sc st = Inr (r, s)" "iterate sc n s = Inr st'"
    by (auto split: sum.splits)
  from iterator_tracks [OF s(1) Suc.prems(2)] Suc.IH [OF s(2)] iterator_frame [OF s(1)]
  show ?case by (blast intro: same_frame_trans)
qed

lemma tracks_link: "tracks sc (link_kmerhash_to_dna_sequence st0 d len)"
  by (simp add: tracks_def link_kmerhash_to_dna_sequence_def absorbed_def regs_of_def)

section \<open>The symbols held in the registers\<close>

lemma fits_bit: "take_bit b (x :: u8) = x \<Longrightarrow> bit x j \<Longrightarrow> j < b"
  by (metis bit_take_bit_iff)

lemma fits_bit64: "take_bit b (x :: u64) = x \<Longrightarrow> bit x j \<Longrightarrow> j < b"
  by (metis bit_take_bit_iff)

lemma ext_push_low:
  assumes "take_bit b x = x"
  shows "ext b 0 (push_bit b w OR ucast x) = x"
  unfolding ext_def
  by (rule bit_word_eqI) (auto simp: bit_simps dest: fits_bit [OF assms] bit_imp_le_length)

lemma ext_push_next:
  assumes "k + 2 * b \<le> 64" and "take_bit b y = y"
  shows "ext b (k + b) (push_bit b w OR y) = ext b k w"
  unfolding ext_def
  using assms(1)
  by (intro bit_word_eqI) (auto simp: bit_simps add.commute add.left_commute dest: fits_bit64 [OF assms(2)])

lemma ext_carry_up:
  assumes "0 < b" and "b \<le> 64"
  shows "ext b 0 (push_bit b w1 OR drop_bit (64 - b) w0) = ext b (64 - b) w0"
  unfolding ext_def
  using assms
  by (intro bit_word_eqI) (auto simp: bit_simps)

lemma ext_drop_top:
  assumes "take_bit b x = x" and "0 < b" and "b \<le> 64"
  shows "ext b (64 - b) (drop_bit b w OR push_bit (64 - b) (ucast x)) = x"
  unfolding ext_def
  using assms(2,3)
  by (intro bit_word_eqI) (auto simp: bit_simps dest: fits_bit [OF assms(1)] bit_imp_le_length)

lemma ext_drop_next:
  assumes "k + 2 * b \<le> 64"
  shows "ext b k (drop_bit b w OR push_bit (64 - b) y) = ext b (k + b) w"
  unfolding ext_def
  using assms
  by (intro bit_word_eqI) (auto simp: bit_simps add.commute add.left_commute)

lemma ext_carry_down:
  assumes "0 < b" and "b \<le> 64"
  shows "ext b (64 - b) (drop_bit b w0 OR push_bit (64 - b) w1) = ext b 0 w1"
  unfolding ext_def
  using assms
  by (intro bit_word_eqI) (auto simp: bit_simps dest: bit_imp_le_length)

lemma fits_ucast: "take_bit b (x :: u8) = x \<Longrightarrow> take_bit b (ucast x :: u64) = ucast x"
  by (rule bit_word_eqI) (auto simp: bit_simps dest: fits_bit)

lemma fits_top: "b \<le> 64 \<Longrightarrow> take_bit b (drop_bit (64 - b) (w :: u64)) = drop_bit (64 - b) w"
  by (rule bit_word_eqI) (auto simp: bit_simps dest: bit_imp_le_length)

lemma shift_regs_parts:
  "fst (fst (shift_regs b two c ((f0, f1), (r0, r1)))) = push_bit b f0 OR ucast (fst c)"
  "snd (fst (shift_regs b two c ((f0, f1), (r0, r1)))) =
     (if two then push_bit b f1 OR drop_bit (64 - b) f0 else f1)"
  "fst (snd (shift_regs b two c ((f0, f1), (r0, r1)))) =
     (if two then drop_bit b r0 OR push_bit (64 - b) r1 else r0)"
  "snd (snd (shift_regs b two c ((f0, f1), (r0, r1)))) =
     drop_bit b r1 OR push_bit (64 - b) (ucast (snd c))"
  by (simp_all add: shift_regs_def Let_def)

lemma sym_positions:
  assumes "b = 1 \<or> b = 2 \<or> b = 4" and "Suc q < capacity b two"
  obtains (low) "(q + 2) * b \<le> 64"
  | (carry) "two" "(q + 1) * b = 64"
  | (high) "two" "64 < (q + 1) * b" "(q + 2) * b \<le> 128" "64 \<le> q * b"
  using assms by (auto simp: capacity_def split: if_splits) arith+

lemma fsym_new:
  assumes "b = 1 \<or> b = 2 \<or> b = 4" and "take_bit b (fst c) = fst c"
  shows "fsym b (fst (shift_regs b two c fr)) 0 = fst c"
proof -
  obtain f0 f1 r0 r1 where fr: "fr = ((f0, f1), (r0, r1))" by (cases fr) auto
  from assms(1) have "b \<le> 64" by auto
  with assms(2) show ?thesis
    by (simp add: fr fsym_def shift_regs_parts ext_push_low)
qed

lemma rsym_new:
  assumes "b = 1 \<or> b = 2 \<or> b = 4" and "take_bit b (snd c) = snd c"
  shows "rsym b (snd (shift_regs b two c fr)) 0 = snd c"
proof -
  obtain f0 f1 r0 r1 where fr: "fr = ((f0, f1), (r0, r1))" by (cases fr) auto
  from assms(1) have "0 < b" "b \<le> 64" by auto
  with assms(2) show ?thesis
    by (simp add: fr rsym_def shift_regs_parts ext_drop_top)
qed

lemma fsym_older:
  assumes b: "b = 1 \<or> b = 2 \<or> b = 4" and c: "take_bit b (fst c) = fst c"
    and q: "Suc q < capacity b two"
  shows "fsym b (fst (shift_regs b two c fr)) (Suc q) = fsym b (fst fr) q"
proof -
  obtain f0 f1 r0 r1 where fr: "fr = ((f0, f1), (r0, r1))" by (cases fr) auto
  from b have b64: "0 < b" "b \<le> 64" by auto
  from b q show ?thesis
  proof (cases rule: sym_positions)
    case low
    then have "q * b + 2 * b \<le> 64" by (simp add: algebra_simps)
    from ext_push_next [OF this fits_ucast [OF c], of f0] low show ?thesis
      by (simp add: fr fsym_def shift_regs_parts algebra_simps)
  next
    case carry
    then have k: "q * b = 64 - b" by (simp add: algebra_simps)
    from ext_carry_up [OF b64, of f1 f0] carry k b64 show ?thesis
      by (simp add: fr fsym_def shift_regs_parts algebra_simps)
  next
    case high
    then have "(q * b - 64) + 2 * b \<le> 64" by (simp add: algebra_simps)
    from ext_push_next [OF this fits_top [OF b64(2)], of f1 f0] high show ?thesis
      by (simp add: fr fsym_def shift_regs_parts algebra_simps)
  qed
qed

lemma rsym_older:
  assumes b: "b = 1 \<or> b = 2 \<or> b = 4"
    and q: "Suc q < capacity b two"
  shows "rsym b (snd (shift_regs b two c fr)) (Suc q) = rsym b (snd fr) q"
proof -
  obtain f0 f1 r0 r1 where fr: "fr = ((f0, f1), (r0, r1))" by (cases fr) auto
  from b have b64: "0 < b" "b \<le> 64" by auto
  from b q show ?thesis
  proof (cases rule: sym_positions)
    case low
    then have "(64 - (q + 2) * b) + 2 * b \<le> 64" by (simp add: algebra_simps)
    from ext_drop_next [OF this, of r1 "ucast (snd c)"] low show ?thesis
      by (simp add: fr rsym_def shift_regs_parts algebra_simps)
  next
    case carry
    from ext_carry_down [OF b64, of r0 r1] carry b64 show ?thesis
      by (simp add: fr rsym_def shift_regs_parts algebra_simps)
  next
    case high
    then have "(128 - (q + 2) * b) + 2 * b \<le> 64" by (simp add: algebra_simps)
    from ext_drop_next [OF this, of r0 r1] high show ?thesis
      by (simp add: fr rsym_def shift_regs_parts algebra_simps)
  qed
qed

lemma regs_of_symbols:
  assumes "b = 1 \<or> b = 2 \<or> b = 4"
    and "\<forall>c \<in> set cs. take_bit b (fst c) = fst c \<and> take_bit b (snd c) = snd c"
    and "q < length cs" and "q < capacity b two"
  shows "fsym b (fst (regs_of b two cs)) q = fst (rev cs ! q) \<and>
         rsym b (snd (regs_of b two cs)) q = snd (rev cs ! q)"
  using assms(2-4)
proof (induction cs arbitrary: q rule: rev_induct)
  case Nil
  then show ?case by simp
next
  case (snoc c cs)
  from snoc.prems(1) have c: "take_bit b (fst c) = fst c" "take_bit b (snd c) = snd c"
    and cs: "\<forall>c \<in> set cs. take_bit b (fst c) = fst c \<and> take_bit b (snd c) = snd c"
    by simp_all
  show ?case
  proof (cases q)
    case 0
    with fsym_new [OF assms(1) c(1)] rsym_new [OF assms(1) c(2)] show ?thesis
      by (simp add: regs_of_snoc)
  next
    case (Suc q')
    with snoc.prems have q': "q' < length cs" "q' < capacity b two" "Suc q' < capacity b two"
      by simp_all
    from snoc.IH [OF cs q'(1) q'(2)] fsym_older [OF assms(1) c(1) q'(3)] rsym_older [OF assms(1) q'(3)] Suc
    show ?thesis
      by (simp add: regs_of_snoc)
  qed
qed

lemma row_index_in_table: "nat (char_index sc c) < 256"
proof -
  have lt: "(of_char c :: nat) < 256" by (rule of_char_less_256)
  show ?thesis
  proof (cases "sc \<and> 128 \<le> (of_char c :: nat)")
    case True
    then have "char_index sc c = int (of_char c) - 256"
      unfolding char_index_def by (rule if_P)
    with lt have "char_index sc c < 0" by linarith
    then have "nat (char_index sc c) = 0" by linarith
    then show ?thesis by linarith
  next
    case False
    then have "char_index sc c = int (of_char c)"
      unfolding char_index_def by (rule if_not_P)
    with lt show ?thesis by linarith
  qed
qed

lemma rows_4_bits:
  "k < 256 \<Longrightarrow> take_bit 4 (fst (dna_in_4_bits ! k)) = fst (dna_in_4_bits ! k) \<and>
     take_bit 4 (snd (dna_in_4_bits ! k)) = snd (dna_in_4_bits ! k) \<and>
     snd (dna_in_4_bits ! k) = complement_code 0 (fst (dna_in_4_bits ! k))"
  by (simp add: dna_in_4_bits_def set_rows_def nth_list_update complement_code_def)

lemma rows_2_bits:
  "k < 256 \<Longrightarrow> \<not> 3 < fst (dna_in_2_bits ! k) \<Longrightarrow>
     take_bit 2 (fst (dna_in_2_bits ! k)) = fst (dna_in_2_bits ! k) \<and>
     take_bit 2 (snd (dna_in_2_bits ! k)) = snd (dna_in_2_bits ! k) \<and>
     snd (dna_in_2_bits ! k) = complement_code 1 (fst (dna_in_2_bits ! k))"
  by (simp add: dna_in_2_bits_def set_rows_def nth_list_update complement_code_def split: if_splits)

lemma rows_1_bits:
  "k < 256 \<Longrightarrow> \<not> 1 < fst (dna_in_1_bits ! k) \<Longrightarrow>
     take_bit 1 (fst (dna_in_1_bits ! k)) = fst (dna_in_1_bits ! k) \<and>
     take_bit 1 (snd (dna_in_1_bits ! k)) = snd (dna_in_1_bits ! k) \<and>
     snd (dna_in_1_bits ! k) = complement_code 2 (fst (dna_in_1_bits ! k))"
  by (simp add: dna_in_1_bits_def set_rows_def nth_list_update complement_code_def split: if_splits)

lemma complement_code_4: "dn \<noteq> 2 \<Longrightarrow> dn \<noteq> 1 \<Longrightarrow> complement_code dn f = complement_code 0 f"
  by (simp add: complement_code_def)

lemma bits_of_cases: "bits_of dn = 1 \<or> bits_of dn = 2 \<or> bits_of dn = 4"
  by (simp add: bits_of_def)

lemma bits_of_simps:
  "bits_of 2 = 1" "bits_of 1 = 2" "dn \<noteq> 2 \<Longrightarrow> dn \<noteq> 1 \<Longrightarrow> bits_of dn = 4"
  by (simp_all add: bits_of_def)

lemma valid_row_fits:
  assumes "valid_row dn (row_of sc dn ch)"
  shows "take_bit (bits_of dn) (fst (row_of sc dn ch)) = fst (row_of sc dn ch) \<and>
         take_bit (bits_of dn) (snd (row_of sc dn ch)) = snd (row_of sc dn ch) \<and>
         snd (row_of sc dn ch) = complement_code dn (fst (row_of sc dn ch))"
proof -
  note k = row_index_in_table [of sc ch]
  consider (one) "dn = 2" | (two) "dn = 1" | (four) "dn \<noteq> 2" "dn \<noteq> 1"
    by blast
  then show ?thesis
  proof cases
    case one
    from assms have v: "\<not> 1 < fst (dna_in_1_bits ! nat (char_index sc ch))"
      by (simp add: one row_of_def table_of_def valid_row_def)
    show ?thesis
      unfolding one row_of_def table_of_simps(1) bits_of_simps(1)
      using rows_1_bits [OF k v] .
  next
    case two
    from assms have v: "\<not> 3 < fst (dna_in_2_bits ! nat (char_index sc ch))"
      by (simp add: two row_of_def table_of_def valid_row_def)
    show ?thesis
      unfolding two row_of_def table_of_simps(2) bits_of_simps(2)
      using rows_2_bits [OF k v] .
  next
    case four
    have e: "table_of dn = dna_in_4_bits" "bits_of dn = 4"
      using four by (simp_all add: table_of_simps bits_of_simps)
    have e': "\<And>f. complement_code dn f = complement_code 0 f"
      using four by (rule complement_code_4)
    show ?thesis
      unfolding row_of_def e e'
      using rows_4_bits [OF k] .
  qed
qed

lemma absorbed_fits:
  assumes "c \<in> set (absorbed sc dn d)"
  shows "take_bit (bits_of dn) (fst c) = fst c \<and> take_bit (bits_of dn) (snd c) = snd c \<and>
         snd c = complement_code dn (fst c)"
proof -
  from assms obtain ch where c: "c = row_of sc dn ch" and v: "valid_row dn c"
    by (auto simp: absorbed_def)
  from v have "valid_row dn (row_of sc dn ch)" unfolding c .
  from valid_row_fits [OF this] show ?thesis unfolding c .
qed

lemma absorbed_ACGT4:
  "absorbed False 1 ''ACGTACGTACGTACGT'' =
     [(0, 3), (1, 2), (2, 1), (3, 0), (0, 3), (1, 2), (2, 1), (3, 0),
      (0, 3), (1, 2), (2, 1), (3, 0), (0, 3), (1, 2), (2, 1), (3, 0)]"
  by (simp add: absorbed_def row_of_def table_of_def char_index_def valid_row_def
      dna_in_2_bits_def set_rows_def)

text \<open>
  C2. After any number of calls on a bound sequence, let the symbols shifted in so far be
  counted from the most recent one (number 0). For every \<open>q\<close> below their number and below
  the capacity of the registers in use, symbol \<open>q\<close> of the forward pair, counted from the
  low bits of \<^verbatim>\<open>forward[0]\<close>, is the forward code of symbol \<open>q\<close>, and symbol \<open>q\<close> of the
  reverse pair, counted from the high bits of \<^verbatim>\<open>reverse[1]\<close>, is its reverse code, which
  is the complement of the forward code: the reverse pair holds the reverse complement
  of the span the forward pair holds, the newest symbol at the opposite end, across both
  words when two are in use.
\<close>

theorem C2_reverse_window_invariant:
  assumes "iterate sc n (link_kmerhash_to_dna_sequence st0 d len) = Inr st"
    and "q < length (absorbed sc (dense (params st)) (take (cur st) (dna st)))"
    and "q < capacity (bits_of (dense (params st))) (n2 (params st) \<noteq> 0)"
  shows "fsym (bits_of (dense (params st))) (forward st) q =
           fst (rev (absorbed sc (dense (params st)) (take (cur st) (dna st))) ! q) \<and>
         rsym (bits_of (dense (params st))) (reverse st) q =
           snd (rev (absorbed sc (dense (params st)) (take (cur st) (dna st))) ! q) \<and>
         rsym (bits_of (dense (params st))) (reverse st) q =
           complement_code (dense (params st)) (fsym (bits_of (dense (params st))) (forward st) q)"
proof -
  let ?A = "absorbed sc (dense (params st)) (take (cur st) (dna st))"
  let ?b = "bits_of (dense (params st))"
  from iterate_tracks [OF assms(1) tracks_link] have "tracks sc st" by simp
  then have r: "forward st = fst (regs_of ?b (n2 (params st) \<noteq> 0) ?A)"
    "reverse st = snd (regs_of ?b (n2 (params st) \<noteq> 0) ?A)"
    by (simp_all add: tracks_def prod_eq_iff)
  have fit: "\<forall>c \<in> set ?A. take_bit ?b (fst c) = fst c \<and> take_bit ?b (snd c) = snd c"
    using absorbed_fits by blast
  from regs_of_symbols [OF bits_of_cases fit assms(2) assms(3)] r
  have s: "fsym ?b (forward st) q = fst (rev ?A ! q)" "rsym ?b (reverse st) q = snd (rev ?A ! q)"
    by simp_all
  from assms(2) have "q < length (rev ?A)" by simp
  then have "rev ?A ! q \<in> set (rev ?A)" by (rule nth_mem)
  then have "rev ?A ! q \<in> set ?A" by simp
  from absorbed_fits [OF this]
  have c: "snd (rev ?A ! q) = complement_code (dense (params st)) (fst (rev ?A ! q))"
    by blast
  show ?thesis
    unfolding s using c by blast
qed

theorem C2_reverse_window_invariant_witness:
  "\<exists>st. iterate False 1 (start 0 ''ACGTACGTACGTACGT'') = Inr st \<and>
     fsym 2 (forward st) 0 = 3 \<and> rsym 2 (reverse st) 0 = 0 \<and>
     fsym 2 (forward st) 3 = 0 \<and> rsym 2 (reverse st) 3 = 3 \<and>
     rsym 2 (reverse st) 3 = complement_code 1 (fsym 2 (forward st) 3)"
proof -
  let ?d = "''ACGTACGTACGTACGT''"
  from returned_atD [OF run_mode0_16] obtain st
    where r: "kmerhash_iterator False (start 0 ?d) = Inr (True, st)" and c: "cur st = 16"
    by blast
  from r have it: "iterate False 1 (link_kmerhash_to_dna_sequence (new_kmerhash test_hash zero_mem 0) ?d (length ?d)) = Inr st"
    by (simp add: start_def)
  from iterator_frame [OF r]
  have f: "dense (params st) = 1" "n2 (params st) = 0" "dna st = ?d"
    by (simp_all add: same_frame_def start_def link_new_fields dense_modes n2_modes)
  have A: "absorbed False (dense (params st)) (take (cur st) (dna st)) =
     [(0, 3), (1, 2), (2, 1), (3, 0), (0, 3), (1, 2), (2, 1), (3, 0),
      (0, 3), (1, 2), (2, 1), (3, 0), (0, 3), (1, 2), (2, 1), (3, 0)]"
    unfolding f c using absorbed_ACGT4 by simp
  have q: "0 < length (absorbed False (dense (params st)) (take (cur st) (dna st)))"
    "3 < length (absorbed False (dense (params st)) (take (cur st) (dna st)))"
    "0 < capacity (bits_of (dense (params st))) (n2 (params st) \<noteq> 0)"
    "3 < capacity (bits_of (dense (params st))) (n2 (params st) \<noteq> 0)"
    unfolding A by (simp_all add: f capacity_def bits_of_def)
  from C2_reverse_window_invariant [OF it q(1) q(3)] C2_reverse_window_invariant [OF it q(2) q(4)]
  have "fsym 2 (forward st) 0 = 3 \<and> rsym 2 (reverse st) 0 = 0 \<and>
     fsym 2 (forward st) 3 = 0 \<and> rsym 2 (reverse st) 3 = 3 \<and>
     rsym 2 (reverse st) 3 = complement_code 1 (fsym 2 (forward st) 3)"
    unfolding A by (simp add: f bits_of_def complement_code_def)
  with r show ?thesis
    by (auto simp: start_def)
qed

section \<open>The outputs before and at the fill requirement\<close>

lemma wide_read_same:
  "same_frame st st' \<Longrightarrow> same_regs st st' \<Longrightarrow> wide_read k st' = wide_read k st"
  by (simp add: wide_read_def same_frame_def same_regs_def Let_def cong: if_cong)

lemma emit2_at:
  assumes "emit2 k st = Inr st'" and "size_k (params st) (n1 (params st) + k) \<le> cur st"
    and "n1 (params st) + k < length (hash st)"
  shows "\<exists>bs. wide_read k st = Inr bs \<and>
           hash st' ! (n1 (params st) + k) =
             hashfunction (params st) bs (seed (params st) (n1 (params st) + k))"
  using assms
  by (auto simp: emit2_def Let_def split: if_splits sum.splits)

lemma for_each_emit2_at:
  assumes "for_each emit2 [0..<n] st = Inr st'" and "k < n"
    and "size_k (params st) (n1 (params st) + k) \<le> cur st"
    and "n1 (params st) + k < length (hash st)"
  shows "\<exists>bs. wide_read k st = Inr bs \<and>
           hash st' ! (n1 (params st) + k) =
             hashfunction (params st) bs (seed (params st) (n1 (params st) + k))"
  using assms
proof (induction n arbitrary: st')
  case 0
  then show ?case by simp
next
  case (Suc n)
  from Suc.prems(1) obtain s where s: "for_each emit2 [0..<n] st = Inr s" "emit2 n s = Inr st'"
    by (auto simp: for_each_append split: sum.splits)
  from for_each_emit2_frame [OF s(1)]
  have fr: "same_frame st s" "same_regs st s" by simp_all
  then have f: "params s = params st" "cur s = cur st" "length (hash s) = length (hash st)"
    by (simp_all add: same_frame_def same_regs_def)
  show ?case
  proof (cases "k = n")
    case True
    from emit2_at [OF s(2)] Suc.prems(3) Suc.prems(4) f True wide_read_same [OF fr, of n]
    show ?thesis by simp
  next
    case False
    with Suc.prems(2) have "k < n" by simp
    from Suc.IH [OF s(1) this Suc.prems(3) Suc.prems(4)] emit2_other [OF s(2), of "n1 (params st) + k"] False f
    show ?thesis by simp
  qed
qed

lemma emit_wide:
  assumes "emit st = Inr st'" and "k < n2 (params st)"
    and "size_k (params st) (n1 (params st) + k) \<le> cur st"
    and "n1 (params st) + k < length (hash st)"
  shows "\<exists>bs. wide_read k st' = Inr bs \<and>
           hash st' ! (n1 (params st) + k) =
             hashfunction (params st) bs (seed (params st) (n1 (params st) + k))"
proof -
  from assms(1) obtain s where s: "for_each emit1 [0..<n1 (params st)] st = Inr s"
    "for_each emit2 [0..<n2 (params s)] s = Inr st'"
    by (auto simp: emit_def split: sum.splits)
  from for_each_emit1_frame [OF s(1)]
  have fr: "same_frame st s" "same_regs st s" by simp_all
  then have f: "params s = params st" "cur s = cur st" "length (hash s) = length (hash st)"
    by (simp_all add: same_frame_def same_regs_def)
  from for_each_emit2_frame [OF s(2)] have fr2: "same_frame s st'" "same_regs s st'" by simp_all
  from for_each_emit2_at [OF s(2), of k] assms(2-4) f wide_read_same [OF fr2, of k]
  show ?thesis by simp
qed

lemma iterator_below:
  "kmerhash_iterator sc st = Inr (r, st') \<Longrightarrow> cur st' < size_k (params st) j \<Longrightarrow>
   hash st' ! j = hash st ! j \<and> kmer st' ! j = kmer st ! j"
proof (induction sc st arbitrary: r st' rule: kmerhash_iterator.induct)
  case (1 sc st)
  from "1.prems"(1) show ?case
  proof (cases rule: iterator_cases)
    case at_end
    then show ?thesis by simp
  next
    case skipped
    from absorb_frame [OF skipped(2)] show ?thesis by simp
  next
    case (last st1)
    from absorb_frame [OF last(2)]
    have a: "params st1 = params st" "hash st1 = hash st" "kmer st1 = kmer st"
      by (simp_all add: same_frame_def)
    from emit_frame [OF last(4)] have "cur st' = cur st1 + 1"
      by (simp add: same_regs_def)
    with "1.prems"(2) a have "cur (st1\<lparr>cur := cur st1 + 1\<rparr>) < size_k (params (st1\<lparr>cur := cur st1 + 1\<rparr>)) j"
      by simp
    from emit_below [OF last(4) this] a show ?thesis by simp
  next
    case (primed st1 r2 st2)
    from absorb_frame [OF primed(2)]
    have a: "params st1 = params st" "hash st1 = hash st" "kmer st1 = kmer st"
      by (simp_all add: same_frame_def)
    from iterator_frame [OF primed(4)] a have p2: "params st2 = params st"
      by (simp add: same_frame_def)
    from emit_frame [OF primed(5)] have c: "cur st' = cur st2"
      by (simp add: same_regs_def)
    with "1.prems"(2) a have "cur st2 < size_k (params (st1\<lparr>cur := cur st1 + 1\<rparr>)) j"
      by simp
    from "1.IH" [OF primed(1) primed(2) refl refl primed(3) primed(4) this]
    have "hash st2 ! j = hash st ! j \<and> kmer st2 ! j = kmer st ! j"
      using a by simp
    moreover from c "1.prems"(2) p2 have "cur st2 < size_k (params st2) j" by simp
    note emit_below [OF primed(5) this]
    ultimately show ?thesis by simp
  qed
qed

lemma iterate_frame:
  "iterate sc n st = Inr st' \<Longrightarrow> same_frame st st' \<and> cur st \<le> cur st'"
proof (induction n arbitrary: st)
  case 0
  then show ?case by simp
next
  case (Suc n)
  from Suc.prems obtain r s where s: "kmerhash_iterator sc st = Inr (r, s)" "iterate sc n s = Inr st'"
    by (auto split: sum.splits)
  from iterator_frame [OF s(1)] Suc.IH [OF s(2)] show ?case
    by (auto intro: same_frame_trans)
qed

lemma iterate_below:
  "iterate sc n st = Inr st' \<Longrightarrow> cur st' < size_k (params st) j \<Longrightarrow>
   hash st' ! j = hash st ! j \<and> kmer st' ! j = kmer st ! j"
proof (induction n arbitrary: st)
  case 0
  then show ?case by simp
next
  case (Suc n)
  from Suc.prems(1) obtain r s where s: "kmerhash_iterator sc st = Inr (r, s)" "iterate sc n s = Inr st'"
    by (auto split: sum.splits)
  from iterator_frame [OF s(1)] have p: "params s = params st" by (simp add: same_frame_def)
  from iterate_frame [OF s(2)] Suc.prems(2) have "cur s < size_k (params st) j" by simp
  from iterator_below [OF s(1) this] Suc.IH [OF s(2)] Suc.prems(2) p show ?case by simp
qed

lemma run_skips_mode3: "kmer_at 0 (iterate False 1 (start 3 ''NNNNNNNC'')) = Inr (8, 1)"
  by code_simp

lemma run_full_mode3: "kmer_at 0 (iterate False 1 (start 3 ''AAAAAAAC'')) = Inr (8, 1)"
  by code_simp

lemma size_k_mode3: "size_k (new_kmer_params H p0 3) 0 = 8"
  by (simp add: new_kmer_params_def Let_def mode_row_def n_idx_def params_slots idx_mode_def
      tbl_nbyte_def)

text \<open>
  C4. Claimed: the outputs of a length of \<open>k\<close> symbols stay zero until \<open>k\<close> valid symbols
  have been shifted in. The code means to wait for a full window (the comments of the
  iterator: "assume for/rev are full, solve initial case later" and "do not update
  hashes, just fill forward[] and reverse[]"), but the priming line and the emission loops
  compare the cursor \<^verbatim>\<open>kmer->i\<close> with \<^verbatim>\<open>size[]\<close>, and the skip loops advance the cursor over
  bytes that are not shifted in. In mode 3 (2 bits a symbol, first length 8 symbols) one
  call on \<^verbatim>\<open>NNNNNNNC\<close> leaves the cursor at 8 and the raw canonical value of the first
  length at 1, with the single valid symbol \<^verbatim>\<open>C\<close> shifted in: the value stored is the one
  of \<^verbatim>\<open>AAAAAAAC\<close>, a window the input does not hold.
\<close>

theorem C4_emission_after_one_valid_symbol:
  "kmer_at 0 (iterate False 1 (start 3 ''NNNNNNNC'')) = Inr (8, 1) \<and>
   size_k (params (start 3 ''NNNNNNNC'')) 0 = 8 \<and>
   absorbed False (dense (params (start 3 ''NNNNNNNC''))) ''NNNNNNNC'' = [(1, 2)] \<and>
   kmer_at 0 (iterate False 1 (start 3 ''AAAAAAAC'')) = Inr (8, 1)"
proof (intro conjI)
  show "kmer_at 0 (iterate False 1 (start 3 ''NNNNNNNC'')) = Inr (8, 1)"
    by (rule run_skips_mode3)
  show "size_k (params (start 3 ''NNNNNNNC'')) 0 = 8"
    by (simp add: start_def link_new_fields size_k_mode3)
  show "absorbed False (dense (params (start 3 ''NNNNNNNC''))) ''NNNNNNNC'' = [(1, 2)]"
    by (simp add: start_def link_new_fields dense_modes absorbed_def row_of_def table_of_def
        char_index_def valid_row_def dna_in_2_bits_def set_rows_def)
  show "kmer_at 0 (iterate False 1 (start 3 ''AAAAAAAC'')) = Inr (8, 1)"
    by (rule run_full_mode3)
qed

text \<open>
  What the comparison with the cursor does ensure, on a state created by \<^verbatim>\<open>new_kmerhash\<close>
  and bound to a sequence, after any number of calls, for every configured length \<open>j\<close>:
  while the cursor is below the size of the length no output of the length has been
  written, and a call that returns true with the cursor at the size or beyond has run the
  emission of that length on the registers as they are.
\<close>

lemma outputs_at_cursor:
  assumes "iterate sc n (link_kmerhash_to_dna_sequence (new_kmerhash H p0 mode) d len) = Inr st"
    and "j < n1 (params st) + n2 (params st)"
  shows "(cur st < size_k (params st) j \<longrightarrow>
            hash st ! j = 0 \<and> (j < n1 (params st) \<longrightarrow> kmer st ! j = 0)) \<and>
         (kmerhash_iterator sc st = Inr (True, st') \<longrightarrow> size_k (params st) j \<le> cur st' \<longrightarrow>
           (if j < n1 (params st) then
              kmer st' ! j = min (fst (forward st') AND mask1 (params st') j)
                                 (drop_bit (shift1 (params st') j) (snd (reverse st'))) \<and>
              hash st' ! j = hashfunction (params st')
                (take (nbytes (params st') j) (bytes_of_u64 (kmer st' ! j))) (seed (params st') j)
            else
              (\<exists>bs. wide_read (j - n1 (params st)) st' = Inr bs \<and>
                 hash st' ! j = hashfunction (params st') bs (seed (params st') j))))"
proof -
  let ?s0 = "link_kmerhash_to_dna_sequence (new_kmerhash H p0 mode) d len"
  from iterate_frame [OF assms(1)]
  have p: "params st = new_kmer_params H p0 mode"
    and lh: "length (hash st) = n1 (params st) + n2 (params st)"
    and lk: "length (kmer st) = n1 (params st)"
    by (simp_all add: same_frame_def link_new_fields)
  have zero: "cur st < size_k (params st) j \<longrightarrow>
            hash st ! j = 0 \<and> (j < n1 (params st) \<longrightarrow> kmer st ! j = 0)"
  proof
    assume "cur st < size_k (params st) j"
    with p have "cur st < size_k (params ?s0) j" by (simp add: link_new_fields)
    from iterate_below [OF assms(1) this] assms(2) p show
      "hash st ! j = 0 \<and> (j < n1 (params st) \<longrightarrow> kmer st ! j = 0)"
      by (simp add: link_new_fields)
  qed
  have emits: "kmerhash_iterator sc st = Inr (True, st') \<longrightarrow> size_k (params st) j \<le> cur st' \<longrightarrow>
           (if j < n1 (params st) then
              kmer st' ! j = min (fst (forward st') AND mask1 (params st') j)
                                 (drop_bit (shift1 (params st') j) (snd (reverse st'))) \<and>
              hash st' ! j = hashfunction (params st')
                (take (nbytes (params st') j) (bytes_of_u64 (kmer st' ! j))) (seed (params st') j)
            else
              (\<exists>bs. wide_read (j - n1 (params st)) st' = Inr bs \<and>
                 hash st' ! j = hashfunction (params st') bs (seed (params st') j)))"
  proof (intro impI)
    assume r: "kmerhash_iterator sc st = Inr (True, st')" and sz: "size_k (params st) j \<le> cur st'"
    from r obtain st2 where e: "emit st2 = Inr st'" and f: "same_frame st st2"
      by (rule iterator_true_emits)
    from emit_frame [OF e] f
    have g: "params st' = params st2" "params st2 = params st" "forward st' = forward st2"
      "reverse st' = reverse st2" "cur st' = cur st2"
      "length (kmer st2) = length (kmer st)" "length (hash st2) = length (hash st)"
      by (simp_all add: same_frame_def same_regs_def)
    show "if j < n1 (params st) then
              kmer st' ! j = min (fst (forward st') AND mask1 (params st') j)
                                 (drop_bit (shift1 (params st') j) (snd (reverse st'))) \<and>
              hash st' ! j = hashfunction (params st')
                (take (nbytes (params st') j) (bytes_of_u64 (kmer st' ! j))) (seed (params st') j)
            else
              (\<exists>bs. wide_read (j - n1 (params st)) st' = Inr bs \<and>
                 hash st' ! j = hashfunction (params st') bs (seed (params st') j))"
    proof (cases "j < n1 (params st)")
      case True
      from emit_single [OF e, of j] True sz g lh lk show ?thesis by simp
    next
      case False
      with assms(2) have k: "j - n1 (params st) < n2 (params st2)" "n1 (params st2) + (j - n1 (params st)) = j"
        using g by simp_all
      from emit_wide [OF e k(1)] k(2) sz g lh assms(2) False show ?thesis by simp
    qed
  qed
  from zero emits show ?thesis by blast
qed

lemma outputs_at_cursor_mode0:
  "hash (start 0 ''ACGTACGTACGTACGT'') ! 0 = 0 \<and> kmer (start 0 ''ACGTACGTACGTACGT'') ! 0 = 0 \<and>
   (\<exists>st'. kmerhash_iterator False (start 0 ''ACGTACGTACGTACGT'') = Inr (True, st') \<and>
      kmer st' ! 0 = min (fst (forward st') AND mask1 (params st') 0)
                         (drop_bit (shift1 (params st') 0) (snd (reverse st'))) \<and>
      hash st' ! 0 = hashfunction (params st')
         (take (nbytes (params st') 0) (bytes_of_u64 (kmer st' ! 0))) (seed (params st') 0))"
proof -
  let ?d = "''ACGTACGTACGTACGT''"
  from returned_atD [OF run_mode0_16] obtain st'
    where r: "kmerhash_iterator False (start 0 ?d) = Inr (True, st')" and c: "cur st' = 16"
    by blast
  have it: "iterate False 0 (link_kmerhash_to_dna_sequence (new_kmerhash test_hash zero_mem 0) ?d (length ?d))
      = Inr (start 0 ?d)"
    by (simp add: start_def)
  have j: "0 < n1 (params (start 0 ?d)) + n2 (params (start 0 ?d))"
    by (simp add: start_def link_new_fields n1_modes)
  have f: "cur (start 0 ?d) < size_k (params (start 0 ?d)) 0"
    "size_k (params (start 0 ?d)) 0 \<le> cur st'" "0 < n1 (params (start 0 ?d))"
    using c by (simp_all add: start_def link_new_fields size_k_mode0 n1_modes)
  from outputs_at_cursor [OF it j, of st'] r f
  show ?thesis by auto
qed

section \<open>Every call returns on four-bit symbols; the read of the reverse registers\<close>

lemma mem_read_ok: "off + len \<le> length buf \<Longrightarrow> \<exists>bs. mem_read buf off len = Inr bs"
  by (simp add: mem_read_def)

lemma length_bytes_of_u64 [simp]: "length (bytes_of_u64 w) = 8"
  by (simp add: bytes_of_u64_def)

lemma length_bytes_of_pair [simp]: "length (bytes_of_pair r) = 16"
  by (simp add: bytes_of_pair_def)

lemma emit1_total: "nbytes (params st) k \<le> 8 \<Longrightarrow> \<exists>st'. emit1 k st = Inr st'"
  by (auto simp: emit1_def Let_def mem_read_def)

lemma for_each_emit1_total:
  "\<forall>k \<in> set ks. nbytes (params st) k \<le> 8 \<Longrightarrow> \<exists>st'. for_each emit1 ks st = Inr st'"
proof (induction ks arbitrary: st)
  case Nil
  then show ?case by simp
next
  case (Cons k ks)
  from Cons.prems emit1_total [of st k] obtain s where s: "emit1 k st = Inr s" by auto
  from emit1_frame [OF s] have "params s = params st" by (simp add: same_frame_def)
  with Cons.prems Cons.IH [of s] s show ?case by simp
qed

lemma emit2_idle: "cur st < size_k (params st) (n1 (params st) + k) \<Longrightarrow> emit2 k st = Inr st"
  by (simp add: emit2_def Let_def)

lemma for_each_emit2_idle:
  "\<forall>k \<in> set ks. cur st < size_k (params st) (n1 (params st) + k) \<Longrightarrow>
   for_each emit2 ks st = Inr st"
  by (induction ks) (simp_all add: emit2_idle)

lemma emit_total:
  assumes "\<forall>k < n1 (params st). nbytes (params st) k \<le> 8"
    and "\<forall>k < n2 (params st). cur st < size_k (params st) (n1 (params st) + k)"
  shows "\<exists>st'. emit st = Inr st'"
proof -
  from assms(1) for_each_emit1_total [of "[0..<n1 (params st)]" st]
  obtain s where s: "for_each emit1 [0..<n1 (params st)] st = Inr s" by auto
  from for_each_emit1_frame [OF s] have f: "params s = params st" "cur s = cur st"
    by (simp_all add: same_frame_def same_regs_def)
  with assms(2) have "\<forall>k \<in> set [0..<n2 (params s)]. cur s < size_k (params s) (n1 (params s) + k)"
    by simp
  from for_each_emit2_idle [OF this] s show ?thesis
    by (simp add: emit_def)
qed


lemma iterator_last:
  assumes "cur st \<noteq> n_dna st" and "absorb sc st = Inr (True, st1)"
    and "\<not> cur st1 + 1 < size_k (params st1) 0" and "emit (st1\<lparr>cur := cur st1 + 1\<rparr>) = Inr st'"
  shows "kmerhash_iterator sc st = Inr (True, st')"
  using assms by (subst kmerhash_iterator.simps) simp

lemma iterator_primed:
  assumes "cur st \<noteq> n_dna st" and "absorb sc st = Inr (True, st1)"
    and "cur st1 + 1 < size_k (params st1) 0"
    and "kmerhash_iterator sc (st1\<lparr>cur := cur st1 + 1\<rparr>) = Inr (r2, st2)"
    and "emit st2 = Inr st'"
  shows "kmerhash_iterator sc st = Inr (True, st')"
  using assms by (subst kmerhash_iterator.simps) simp

lemma iterator_at_end: "cur st = n_dna st \<Longrightarrow> kmerhash_iterator sc st = Inr (False, st)"
  by (subst kmerhash_iterator.simps) simp

lemma absorb_4bit:
  assumes "dense (params st) \<noteq> 2" and "dense (params st) \<noteq> 1"
    and "read_code sc dna_in_4_bits (dna st) (cur st) = Inr c"
  shows "absorb sc st = Inr (True, shift_in 4 (n2 (params st) \<noteq> 0) c st)"
  using assms by (simp add: absorb_def)

lemma iterator_4bit:
  assumes "dense (params st) \<noteq> 2" and "dense (params st) \<noteq> 1"
    and "cur st < n_dna st"
    and "\<forall>i. cur st \<le> i \<and> i < n_dna st \<longrightarrow> (\<exists>c. read_code sc dna_in_4_bits (dna st) i = Inr c)"
    and "\<forall>k < n1 (params st). nbytes (params st) k \<le> 8"
    and "\<forall>k < n2 (params st). max (cur st + 1) (min (size_k (params st) 0) (n_dna st))
            < size_k (params st) (n1 (params st) + k)"
  shows "\<exists>st'. kmerhash_iterator sc st = Inr (True, st') \<and>
           cur st' = max (cur st + 1) (min (size_k (params st) 0) (n_dna st))"
  using assms
proof (induction sc st rule: kmerhash_iterator.induct)
  case (1 sc st)
  note d = "1.prems"(1,2) and lt = "1.prems"(3) and rd = "1.prems"(4) and nb = "1.prems"(5)
    and wide = "1.prems"(6)
  from rd lt obtain c where c: "read_code sc dna_in_4_bits (dna st) (cur st) = Inr c" by blast
  define st1 where "st1 = shift_in 4 (n2 (params st) \<noteq> 0) c st"
  define st1' where "st1' = st1\<lparr>cur := cur st1 + 1\<rparr>"
  have a: "absorb sc st = Inr (True, st1)"
    unfolding st1_def using d c by (rule absorb_4bit)
  have f1: "params st1 = params st" "cur st1 = cur st" "dna st1 = dna st" "n_dna st1 = n_dna st"
    by (simp_all add: st1_def)
  have f1': "params st1' = params st" "cur st1' = cur st + 1" "dna st1' = dna st" "n_dna st1' = n_dna st"
    by (simp_all add: st1'_def f1)
  from lt have ne: "cur st \<noteq> n_dna st" by simp
  show ?case
  proof (cases "cur st1 + 1 < size_k (params st1) 0")
    case False
    then have b: "max (cur st + 1) (min (size_k (params st) 0) (n_dna st)) = cur st + 1"
      by (simp add: f1)
    from wide b have "\<forall>k < n2 (params st1'). cur st1' < size_k (params st1') (n1 (params st1') + k)"
      by (simp add: f1')
    moreover from nb have "\<forall>k < n1 (params st1'). nbytes (params st1') k \<le> 8"
      by (simp add: f1')
    ultimately obtain st' where e: "emit st1' = Inr st'"
      using emit_total [of st1'] by blast
    from emit_frame [OF e] have "cur st' = cur st + 1"
      by (simp add: same_regs_def f1')
    with iterator_last [OF ne a False e [unfolded st1'_def]] b show ?thesis by simp
  next
    case True
    show ?thesis
    proof (cases "cur st + 1 = n_dna st")
      case e: True
      with True have b: "max (cur st + 1) (min (size_k (params st) 0) (n_dna st)) = cur st + 1"
        by (simp add: f1)
      from e have r: "kmerhash_iterator sc st1' = Inr (False, st1')"
        by (intro iterator_at_end) (simp add: f1')
      from wide b have "\<forall>k < n2 (params st1'). cur st1' < size_k (params st1') (n1 (params st1') + k)"
        by (simp add: f1')
      moreover from nb have "\<forall>k < n1 (params st1'). nbytes (params st1') k \<le> 8"
        by (simp add: f1')
      ultimately obtain st' where em: "emit st1' = Inr st'"
        using emit_total [of st1'] by blast
      from emit_frame [OF em] have "cur st' = cur st + 1"
        by (simp add: same_regs_def f1')
      with iterator_primed [OF ne a True r [unfolded st1'_def] em [unfolded st1'_def]] b show ?thesis by simp
    next
      case e: False
      with lt have lt': "cur st1' < n_dna st1'" by (simp add: f1')
      from True e lt
      have b: "max (cur st1' + 1) (min (size_k (params st1') 0) (n_dna st1')) =
               max (cur st + 1) (min (size_k (params st) 0) (n_dna st))"
        by (simp add: f1 f1')
      have p: "dense (params st1') \<noteq> 2" "dense (params st1') \<noteq> 1"
        "\<forall>i. cur st1' \<le> i \<and> i < n_dna st1' \<longrightarrow> (\<exists>c. read_code sc dna_in_4_bits (dna st1') i = Inr c)"
        "\<forall>k < n1 (params st1'). nbytes (params st1') k \<le> 8"
        "\<forall>k < n2 (params st1'). max (cur st1' + 1) (min (size_k (params st1') 0) (n_dna st1'))
            < size_k (params st1') (n1 (params st1') + k)"
        using d rd nb wide unfolding b by (simp_all add: f1')
      from "1.IH" [OF ne a refl refl True, folded st1'_def, OF p(1) p(2) lt' p(3) p(4) p(5)]
      obtain st2 where r: "kmerhash_iterator sc st1' = Inr (True, st2)"
        and c2: "cur st2 = max (cur st + 1) (min (size_k (params st) 0) (n_dna st))"
        unfolding b by blast
      from iterator_frame [OF r] have p2: "params st2 = params st"
        by (simp add: same_frame_def f1')
      from wide c2 p2 have "\<forall>k < n2 (params st2). cur st2 < size_k (params st2) (n1 (params st2) + k)"
        by simp
      moreover from nb p2 have "\<forall>k < n1 (params st2). nbytes (params st2) k \<le> 8"
        by simp
      ultimately obtain st' where em: "emit st2 = Inr st'"
        using emit_total [of st2] by blast
      from emit_frame [OF em] c2 have "cur st' = max (cur st + 1) (min (size_k (params st) 0) (n_dna st))"
        by (simp add: same_regs_def)
      with iterator_primed [OF ne a True r [unfolded st1'_def] em] show ?thesis by simp
    qed
  qed
qed


lemma iterate_snoc:
  "iterate sc (Suc n) st =
     (case iterate sc n st of
        Inl e \<Rightarrow> Inl e
      | Inr s \<Rightarrow> (case kmerhash_iterator sc s of Inl e \<Rightarrow> Inl e | Inr (r, st') \<Rightarrow> Inr st'))"
proof (induction n arbitrary: st)
  case 0
  show ?case by (simp split: sum.split prod.split)
next
  case (Suc n)
  show ?case
  proof (cases "kmerhash_iterator sc st")
    case (Inl e)
    then show ?thesis by simp
  next
    case (Inr p)
    obtain r s where p: "p = (r, s)" by (cases p)
    from Inr p have "iterate sc (Suc (Suc n)) st = iterate sc (Suc n) s"
      and "iterate sc (Suc n) st = iterate sc n s"
      by simp_all
    with Suc.IH [of s] show ?thesis by (simp only:)
  qed
qed

lemma iterate_4bit:
  assumes "dense (params st) \<noteq> 2" and "dense (params st) \<noteq> 1"
    and "size_k (params st) 0 \<le> cur st + 1" and "cur st + n \<le> n_dna st"
    and "\<forall>i. cur st \<le> i \<and> i < n_dna st \<longrightarrow> (\<exists>c. read_code sc dna_in_4_bits (dna st) i = Inr c)"
    and "\<forall>k < n1 (params st). nbytes (params st) k \<le> 8"
    and "\<forall>k < n2 (params st). cur st + n < size_k (params st) (n1 (params st) + k)"
  shows "\<exists>st'. iterate sc n st = Inr st' \<and> cur st' = cur st + n"
  using assms
proof (induction n arbitrary: st)
  case 0
  then show ?case by simp
next
  case (Suc n)
  from Suc.prems(3) have b: "max (cur st + 1) (min (size_k (params st) 0) (n_dna st)) = cur st + 1"
    by simp
  from Suc.prems(7) b
  have w: "\<forall>k < n2 (params st). max (cur st + 1) (min (size_k (params st) 0) (n_dna st))
            < size_k (params st) (n1 (params st) + k)"
    by auto
  from Suc.prems(4) have lt: "cur st < n_dna st" by simp
  from iterator_4bit [OF Suc.prems(1) Suc.prems(2) lt Suc.prems(5) Suc.prems(6) w] b
  obtain s where s: "kmerhash_iterator sc st = Inr (True, s)" and c: "cur s = cur st + 1"
    by auto
  from iterator_frame [OF s] have f: "params s = params st" "dna s = dna st" "n_dna s = n_dna st"
    by (simp_all add: same_frame_def)
  have p: "dense (params s) \<noteq> 2" "dense (params s) \<noteq> 1"
    "size_k (params s) 0 \<le> cur s + 1" "cur s + n \<le> n_dna s"
    "\<forall>i. cur s \<le> i \<and> i < n_dna s \<longrightarrow> (\<exists>c. read_code sc dna_in_4_bits (dna s) i = Inr c)"
    "\<forall>k < n1 (params s). nbytes (params s) k \<le> 8"
    "\<forall>k < n2 (params s). cur s + n < size_k (params s) (n1 (params s) + k)"
    using Suc.prems by (simp_all add: f c)
  from Suc.IH [OF p] obtain st' where "iterate sc n s = Inr st'" "cur st' = cur s + n"
    by blast
  with s c show ?case by simp
qed

text \<open>From a freshly bound state: the first call primes up to the first size.\<close>

lemma run_4bit:
  assumes "dense (params st) \<noteq> 2" and "dense (params st) \<noteq> 1"
    and "cur st = 0" and "0 < size_k (params st) 0" and "size_k (params st) 0 + n \<le> n_dna st"
    and "\<forall>i < n_dna st. \<exists>c. read_code sc dna_in_4_bits (dna st) i = Inr c"
    and "\<forall>k < n1 (params st). nbytes (params st) k \<le> 8"
    and "\<forall>k < n2 (params st). size_k (params st) 0 + n < size_k (params st) (n1 (params st) + k)"
  shows "\<exists>st'. iterate sc (Suc n) st = Inr st' \<and> cur st' = size_k (params st) 0 + n"
proof -
  from assms(3-5) have b: "max (cur st + 1) (min (size_k (params st) 0) (n_dna st)) = size_k (params st) 0"
    by simp
  from assms(8) b
  have w: "\<forall>k < n2 (params st). max (cur st + 1) (min (size_k (params st) 0) (n_dna st))
            < size_k (params st) (n1 (params st) + k)"
    by auto
  from assms(3-5) have lt: "cur st < n_dna st" by simp
  from assms(6) have rd: "\<forall>i. cur st \<le> i \<and> i < n_dna st \<longrightarrow> (\<exists>c. read_code sc dna_in_4_bits (dna st) i = Inr c)"
    by simp
  from iterator_4bit [OF assms(1) assms(2) lt rd assms(7) w] b
  obtain s where s: "kmerhash_iterator sc st = Inr (True, s)" and c: "cur s = size_k (params st) 0"
    by auto
  from iterator_frame [OF s] have f: "params s = params st" "dna s = dna st" "n_dna s = n_dna st"
    by (simp_all add: same_frame_def)
  have p: "dense (params s) \<noteq> 2" "dense (params s) \<noteq> 1"
    "size_k (params s) 0 \<le> cur s + 1" "cur s + n \<le> n_dna s"
    "\<forall>i. cur s \<le> i \<and> i < n_dna s \<longrightarrow> (\<exists>c. read_code sc dna_in_4_bits (dna s) i = Inr c)"
    "\<forall>k < n1 (params s). nbytes (params s) k \<le> 8"
    "\<forall>k < n2 (params s). cur s + n < size_k (params s) (n1 (params s) + k)"
    using assms by (simp_all add: f c)
  from iterate_4bit [OF p] obtain st' where "iterate sc n s = Inr st'" "cur st' = cur s + n"
    by blast
  with s c show ?thesis by simp
qed

lemma read_code_unsigned:
  "i < length d \<Longrightarrow> length t = 256 \<Longrightarrow> read_code False t d i = Inr (t ! of_char (d ! i))"
  by (simp add: read_code_def tbl_at_in_range)


lemma tbl_nbyte_le: "i < 7 \<Longrightarrow> tbl_nbyte ! i \<le> 8"
  by (simp add: tbl_nbyte_def nth_Cons')

lemma idx_mode_single_lt: "r < 6 \<Longrightarrow> k < 7 \<Longrightarrow> idx_mode ! r ! 0 ! k < 7"
  by (simp add: idx_mode_def nth_Cons')

lemmas mode_unfold = new_kmer_params_def Let_def mode_row_def n_idx_def params_slots

lemma nbytes_single_le:
  "k < n1 (new_kmer_params H p0 mode) \<Longrightarrow> nbytes (new_kmer_params H p0 mode) k \<le> 8"
  by (auto simp: mode_unfold intro!: tbl_nbyte_le idx_mode_single_lt)

lemma mode2_facts:
  "dense (new_kmer_params H p0 2) = 0" "n1 (new_kmer_params H p0 2) = 5"
  "n2 (new_kmer_params H p0 2) = 3" "size_k (new_kmer_params H p0 2) 0 = 4"
  "size_k (new_kmer_params H p0 2) 5 = 20" "size_k (new_kmer_params H p0 2) 6 = 24"
  "size_k (new_kmer_params H p0 2) 7 = 32" "shift2 (new_kmer_params H p0 2) 0 = 48"
  "nbytes (new_kmer_params H p0 2) 5 = 10"
  by (simp_all add: mode_unfold idx_mode_def tbl_nbyte_def tbl_shift_def)



lemma emit_wide_fails:
  assumes "\<forall>k < n1 (params st). nbytes (params st) k \<le> 8" and "0 < n2 (params st)"
    and "size_k (params st) (n1 (params st)) \<le> cur st" and "wide_read 0 st = Inl e"
  shows "emit st = Inl e"
proof -
  from assms(1) for_each_emit1_total [of "[0..<n1 (params st)]" st]
  obtain s where s: "for_each emit1 [0..<n1 (params st)] st = Inr s" by auto
  from for_each_emit1_frame [OF s] have fr: "same_frame st s" "same_regs st s" by simp_all
  then have f: "params s = params st" "cur s = cur st"
    by (simp_all add: same_frame_def same_regs_def)
  from wide_read_same [OF fr, of 0] assms(4) have "wide_read 0 s = Inl e" by simp
  with assms(3) f have "emit2 0 s = Inl e"
    by (simp add: emit2_def Let_def)
  moreover from assms(2) f have "[0..<n2 (params s)] = 0 # [1..<n2 (params s)]"
    by (simp add: upt_conv_Cons)
  ultimately have "for_each emit2 [0..<n2 (params s)] s = Inl e" by simp
  with s show ?thesis by (simp add: emit_def)
qed

lemma iterator_last_fails:
  assumes "cur st \<noteq> n_dna st" and "absorb sc st = Inr (True, st1)"
    and "\<not> cur st1 + 1 < size_k (params st1) 0" and "emit (st1\<lparr>cur := cur st1 + 1\<rparr>) = Inl e"
  shows "kmerhash_iterator sc st = Inl e"
  using assms by (subst kmerhash_iterator.simps) simp

lemma row_T: "row_of False 0 CHR ''T'' = (8, 1)"
  by (simp add: row_of_def table_of_def char_index_def dna_in_4_bits_def set_rows_def)

lemma absorbed_4bit: "absorbed sc 0 d = map (row_of sc 0) d"
  by (simp add: absorbed_def valid_row_def)

lemma replicate_19: "replicate 19 c = [c, c, c, c, c, c, c, c, c, c, c, c, c, c, c, c, c, c, c]"
  by (simp add: numeral_eq_Suc)

lemma take_T19: "take 19 dna_T20 = replicate 19 CHR ''T''"
  by (simp add: dna_T20_def replicate_19)

lemma absorbed_T19: "absorbed False 0 (take 19 dna_T20) = replicate 19 (8, 1)"
  by (simp only: take_T19 absorbed_4bit map_replicate row_T)

lemma regs_T20:
  "regs_of 4 True (replicate 19 (8, 1) @ [(8, 1)]) =
     ((0x8888888888888888, 0x8888), (0x1111000000000000, 0x1111111111111111))"
  by code_simp


lemma start_fields:
  "params (start mode d) = new_kmer_params test_hash zero_mem mode" "dna (start mode d) = d"
  "n_dna (start mode d) = length d" "cur (start mode d) = 0"
  by (simp_all add: start_def link_new_fields)

lemma readable_unsigned:
  "\<forall>i < length d. \<exists>c. read_code False dna_in_4_bits d i = Inr c"
  by (simp add: read_code_unsigned)

lemma wide_sizes_mode2: "k < 3 \<Longrightarrow> 19 < size_k (new_kmer_params H p0 2) (5 + k)"
  by (auto simp: less_Suc_eq numeral_3_eq_3 mode2_facts)

lemma run_T20_16: "\<exists>st. iterate False 16 (start 2 dna_T20) = Inr st \<and> cur st = 19"
proof -
  have "\<exists>st'. iterate False (Suc 15) (start 2 dna_T20) = Inr st' \<and>
          cur st' = size_k (params (start 2 dna_T20)) 0 + 15"
  proof (rule run_4bit)
    show "\<forall>k < n2 (params (start 2 dna_T20)).
            size_k (params (start 2 dna_T20)) 0 + 15
              < size_k (params (start 2 dna_T20)) (n1 (params (start 2 dna_T20)) + k)"
      using wide_sizes_mode2 by (simp add: start_fields mode2_facts)
    show "\<forall>k < n1 (params (start 2 dna_T20)). nbytes (params (start 2 dna_T20)) k \<le> 8"
      by (simp add: start_fields nbytes_single_le)
    show "\<forall>i < n_dna (start 2 dna_T20). \<exists>c. read_code False dna_in_4_bits (dna (start 2 dna_T20)) i = Inr c"
      unfolding start_fields by (rule readable_unsigned)
  qed (simp_all add: start_fields mode2_facts dna_T20_def)
  then show ?thesis by (simp add: start_fields mode2_facts)
qed

text \<open>
  C6. With mode 2 the first double-word length is 20 symbols of four bits: its shift is 48
  bits and its hash input is 10 bytes. On twenty \<^verbatim>\<open>T\<close> the reverse strand is the smaller
  one, and the call that completes the window reads \<^verbatim>\<open>rev8b + shift2[i]\<close>, that is 10 bytes
  at byte offset 48 of the 16 bytes of the reverse registers: the offset is the shift in
  bits, not in bytes, and the span is outside the registers.
\<close>

theorem C6_reverse_read_leaves_the_registers:
  "shift2 (params (start 2 dna_T20)) 0 = 48 \<and> nbytes (params (start 2 dna_T20)) 5 = 10 \<and>
   (\<exists>st. iterate False 16 (start 2 dna_T20) = Inr st \<and> cur st = 19 \<and>
      kmerhash_iterator False st = Inl OutOfBounds) \<and>
   iterate False 17 (start 2 dna_T20) = Inl OutOfBounds"
proof -
  from run_T20_16 obtain st where run: "iterate False 16 (start 2 dna_T20) = Inr st"
    and c: "cur st = 19" by blast
  from iterate_tracks [OF run [unfolded start_def] tracks_link]
  have t: "tracks False st" and fr: "same_frame (start 2 dna_T20) st"
    by (simp_all add: start_def)
  from fr have f: "params st = new_kmer_params test_hash zero_mem 2" "dna st = dna_T20" "n_dna st = 20"
    by (simp_all add: same_frame_def start_fields dna_T20_def)
  from t have regs: "(forward st, reverse st) = regs_of 4 True (replicate 19 (8, 1))"
    by (simp add: tracks_def f c mode2_facts bits_of_def absorbed_T19)
  have "read_code False dna_in_4_bits dna_T20 19 = Inr (8, 1)"
    by (simp add: read_code_def tbl_at_def char_index_def dna_T20_def dna_in_4_bits_def
        set_rows_def)
  with f c have rc: "read_code False dna_in_4_bits (dna st) (cur st) = Inr (8, 1)"
    by simp
  define st1 where "st1 = shift_in 4 (n2 (params st) \<noteq> 0) (8, 1) st"
  have a: "absorb False st = Inr (True, st1)"
    unfolding st1_def by (rule absorb_4bit [OF _ _ rc]) (simp_all add: f mode2_facts)
  have r1: "(forward st1, reverse st1) =
      ((0x8888888888888888, 0x8888), (0x1111000000000000, 0x1111111111111111))"
    unfolding st1_def using regs regs_T20 by (simp add: f mode2_facts regs_of_snoc)
  then have r1': "forward st1 = (0x8888888888888888, 0x8888)"
    "reverse st1 = (0x1111000000000000, 0x1111111111111111)"
    by simp_all
  have f1: "params st1 = new_kmer_params test_hash zero_mem 2" "cur st1 = 19"
    by (simp_all add: st1_def f c)
  have w: "wide_read 0 (st1\<lparr>cur := cur st1 + 1\<rparr>) = Inl OutOfBounds"
    by (simp add: wide_read_def Let_def r1' f1 mode2_facts mem_read_def)
  have e: "emit (st1\<lparr>cur := cur st1 + 1\<rparr>) = Inl OutOfBounds"
    by (rule emit_wide_fails [OF _ _ _ w]) (simp_all add: f1 mode2_facts nbytes_single_le)
  have last: "kmerhash_iterator False st = Inl OutOfBounds"
    by (rule iterator_last_fails [OF _ a _ e]) (simp_all add: f c f1 mode2_facts)
  have "iterate False (Suc 16) (start 2 dna_T20) = Inl OutOfBounds"
    by (simp only: iterate_snoc run last sum.case)
  then have "iterate False 17 (start 2 dna_T20) = Inl OutOfBounds" by simp
  with run c last show ?thesis
    by (auto simp: start_fields mode2_facts)
qed

section \<open>The two strands of a sequence\<close>

lemma mode4_facts:
  "dense (new_kmer_params H p0 4) = 0" "n1 (new_kmer_params H p0 4) = 7"
  "n2 (new_kmer_params H p0 4) = 4" "size_k (new_kmer_params H p0 4) 0 = 4"
  "size_k (new_kmer_params H p0 4) 5 = 14" "mask1 (new_kmer_params H p0 4) 5 = 0xffffffffffff"
  "shift1 (new_kmer_params H p0 4) 5 = 8"
  "size_k (new_kmer_params H p0 4) 7 = 20" "size_k (new_kmer_params H p0 4) 8 = 22"
  "size_k (new_kmer_params H p0 4) 9 = 24" "size_k (new_kmer_params H p0 4) 10 = 32"
  by (simp_all add: mode_unfold idx_mode_def tbl_nbyte_def tbl_shift_def tbl_mask_def)

lemma wide_sizes_mode4:
  assumes "k < 4"
  shows "20 \<le> size_k (new_kmer_params H p0 4) (7 + k)"
proof -
  from assms consider "k = 0" | "k = 1" | "k = 2" | "k = 3" by linarith
  then show ?thesis by cases (simp_all add: mode4_facts)
qed

lemma iterator_single_value:
  assumes "kmerhash_iterator sc st = Inr (True, st')"
    and "k < n1 (params st)" and "size_k (params st) k \<le> cur st'"
    and "k < length (kmer st)" and "k < length (hash st)"
  shows "kmer st' ! k = min (fst (forward st') AND mask1 (params st) k)
                            (drop_bit (shift1 (params st) k) (snd (reverse st')))"
proof -
  from assms(1) obtain st2 where e: "emit st2 = Inr st'" and f: "same_frame st st2"
    by (rule iterator_true_emits)
  from emit_frame [OF e] f
  have g: "params st' = params st2" "params st2 = params st" "forward st' = forward st2"
    "reverse st' = reverse st2" "cur st' = cur st2"
    "length (kmer st2) = length (kmer st)" "length (hash st2) = length (hash st)"
    by (simp_all add: same_frame_def same_regs_def)
  from emit_single [OF e, of k] assms(2-5) g show ?thesis by simp
qed

lemma run_mode4_14:
  assumes "length d = 14"
  shows "\<exists>st'. iterate False 11 (start 4 d) = Inr st' \<and> cur st' = 14 \<and>
           kmer st' ! 5 = min (fst (forward st') AND 0xffffffffffff) (drop_bit 8 (snd (reverse st'))) \<and>
           (forward st', reverse st') = regs_of 4 True (map (row_of False 0) d)"
proof -
  let ?s = "start 4 d"
  have "\<exists>s. iterate False (Suc 9) ?s = Inr s \<and> cur s = size_k (params ?s) 0 + 9"
  proof (rule run_4bit)
    show "\<forall>k < n2 (params ?s). size_k (params ?s) 0 + 9 < size_k (params ?s) (n1 (params ?s) + k)"
    proof (intro allI impI)
      fix k assume "k < n2 (params ?s)"
      then have "k < 4" by (simp add: start_fields mode4_facts)
      from wide_sizes_mode4 [OF this, of test_hash zero_mem]
      show "size_k (params ?s) 0 + 9 < size_k (params ?s) (n1 (params ?s) + k)"
        by (simp add: start_fields mode4_facts)
    qed
    show "\<forall>k < n1 (params ?s). nbytes (params ?s) k \<le> 8"
      by (simp add: start_fields nbytes_single_le)
    show "\<forall>i < n_dna ?s. \<exists>c. read_code False dna_in_4_bits (dna ?s) i = Inr c"
      unfolding start_fields by (rule readable_unsigned)
  qed (simp_all add: start_fields mode4_facts assms)
  then obtain s where run: "iterate False 10 ?s = Inr s" and c: "cur s = 13"
    by (auto simp: start_fields mode4_facts)
  from iterate_frame [OF run] have fr: "same_frame ?s s" by simp
  then have f: "params s = new_kmer_params test_hash zero_mem 4" "dna s = d" "n_dna s = 14"
    "length (kmer s) = 7" "length (hash s) = 11"
    by (simp_all add: same_frame_def start_fields assms start_def link_new_fields mode4_facts)
  have "\<exists>st'. kmerhash_iterator False s = Inr (True, st') \<and>
           cur st' = max (cur s + 1) (min (size_k (params s) 0) (n_dna s))"
  proof (rule iterator_4bit)
    show "\<forall>i. cur s \<le> i \<and> i < n_dna s \<longrightarrow> (\<exists>c. read_code False dna_in_4_bits (dna s) i = Inr c)"
      using readable_unsigned [of d] by (simp add: f assms)
    show "\<forall>k < n1 (params s). nbytes (params s) k \<le> 8"
      by (simp add: f nbytes_single_le)
    show "\<forall>k < n2 (params s). max (cur s + 1) (min (size_k (params s) 0) (n_dna s))
            < size_k (params s) (n1 (params s) + k)"
    proof (intro allI impI)
      fix k assume "k < n2 (params s)"
      then have "k < 4" by (simp add: f mode4_facts)
      from wide_sizes_mode4 [OF this, of test_hash zero_mem]
      show "max (cur s + 1) (min (size_k (params s) 0) (n_dna s))
              < size_k (params s) (n1 (params s) + k)"
        by (simp add: f c mode4_facts)
    qed
  qed (simp_all add: f c mode4_facts)
  then obtain st' where last: "kmerhash_iterator False s = Inr (True, st')" and c': "cur st' = 14"
    by (auto simp: f c mode4_facts)
  have all: "iterate False (Suc 10) ?s = Inr st'"
    by (simp only: iterate_snoc run last sum.case prod.case)
  then have all': "iterate False 11 ?s = Inr st'" by simp
  from iterate_tracks [OF all [unfolded start_def] tracks_link]
  have t: "tracks False st'" and fr': "same_frame ?s st'"
    by (simp_all add: start_def)
  from fr' have f': "params st' = new_kmer_params test_hash zero_mem 4" "dna st' = d"
    by (simp_all add: same_frame_def start_fields)
  from t have regs: "(forward st', reverse st') = regs_of 4 True (map (row_of False 0) d)"
    by (simp add: tracks_def f' c' mode4_facts bits_of_def absorbed_4bit assms)
  from iterator_single_value [OF last, of 5]
  have "kmer st' ! 5 = min (fst (forward st') AND 0xffffffffffff) (drop_bit 8 (snd (reverse st')))"
    by (simp add: f c' mode4_facts)
  with all' c' regs show ?thesis by blast
qed

lemma rows_CA13:
  "map (row_of False 0) dna_CA13 =
     [(2, 4), (1, 8), (1, 8), (1, 8), (1, 8), (1, 8), (1, 8), (1, 8), (1, 8), (1, 8), (1, 8),
      (1, 8), (1, 8), (1, 8)]"
  by (simp add: dna_CA13_def row_of_def table_of_def char_index_def dna_in_4_bits_def set_rows_def)

lemma reverse_complement_CA13: "reverse_complement dna_CA13 = ''TTTTTTTTTTTTTG''"
  by (simp add: reverse_complement_def complement_base_def dna_CA13_def)

lemma rows_TG13:
  "map (row_of False 0) ''TTTTTTTTTTTTTG'' =
     [(8, 1), (8, 1), (8, 1), (8, 1), (8, 1), (8, 1), (8, 1), (8, 1), (8, 1), (8, 1), (8, 1),
      (8, 1), (8, 1), (4, 2)]"
  by (simp add: row_of_def table_of_def char_index_def dna_in_4_bits_def set_rows_def)

lemma regs_CA13:
  "regs_of 4 True
     [(2, 4), (1, 8), (1, 8), (1, 8), (1, 8), (1, 8), (1, 8), (1, 8), (1, 8), (1, 8), (1, 8),
      (1, 8), (1, 8), (1, 8)] =
   ((0x21111111111111, 0), (0, 0x8888888888888400))"
  by code_simp

lemma regs_TG13:
  "regs_of 4 True
     [(8, 1), (8, 1), (8, 1), (8, 1), (8, 1), (8, 1), (8, 1), (8, 1), (8, 1), (8, 1), (8, 1),
      (8, 1), (8, 1), (4, 2)] =
   ((0x88888888888884, 0), (0, 0x2111111111111100))"
  by code_simp

lemma candidates_CA13:
  "min ((0x21111111111111 :: u64) AND 0xffffffffffff) (drop_bit 8 0x8888888888888400)
     = 0x111111111111"
  by code_simp

lemma candidates_TG13:
  "min ((0x88888888888884 :: u64) AND 0xffffffffffff) (drop_bit 8 0x2111111111111100)
     = 0x888888888884"
  by code_simp

text \<open>
  C1. Mode 4 has a single-word length of 14 symbols of four bits. Its mask is the entry 5
  of \<^verbatim>\<open>_tbl_mask\<close>, which keeps 48 bits (12 symbols), while its shift 8 leaves 56 bits
  (14 symbols) of the reverse register: the forward candidate is only the last 12 symbols
  read. On \<^verbatim>\<open>CAAAAAAAAAAAAA\<close> and on its reverse complement \<^verbatim>\<open>TTTTTTTTTTTTTG\<close> the call
  that completes the window of 14 symbols (the eleventh, cursor 14) leaves two different
  canonical raw values for this length.
\<close>

theorem C1_strands_differ_at_fourteen_symbols:
  "reverse_complement dna_CA13 = ''TTTTTTTTTTTTTG'' \<and>
   size_k (params (start 4 dna_CA13)) 5 = 14 \<and>
   mask1 (params (start 4 dna_CA13)) 5 = 0xffffffffffff \<and>
   shift1 (params (start 4 dna_CA13)) 5 = 8 \<and>
   kmer_at 5 (iterate False 11 (start 4 dna_CA13)) = Inr (14, 0x111111111111) \<and>
   kmer_at 5 (iterate False 11 (start 4 (reverse_complement dna_CA13)))
     = Inr (14, 0x888888888884)"
proof -
  have "length dna_CA13 = 14" by (simp add: dna_CA13_def)
  from run_mode4_14 [OF this] obtain st where
    st: "iterate False 11 (start 4 dna_CA13) = Inr st" "cur st = 14"
      "kmer st ! 5 = min (fst (forward st) AND 0xffffffffffff) (drop_bit 8 (snd (reverse st)))"
      "(forward st, reverse st) = regs_of 4 True (map (row_of False 0) dna_CA13)"
    by blast
  from st(4) have "forward st = (0x21111111111111, 0)" "reverse st = (0, 0x8888888888888400)"
    by (simp_all only: rows_CA13 regs_CA13 prod.inject)
  with st(3) have "kmer st ! 5 = 0x111111111111"
    by (simp only: fst_conv snd_conv candidates_CA13)
  with st(1,2) have a: "kmer_at 5 (iterate False 11 (start 4 dna_CA13)) = Inr (14, 0x111111111111)"
    by (simp add: kmer_at_def)
  have "length ''TTTTTTTTTTTTTG'' = 14" by simp
  from run_mode4_14 [OF this] obtain su where
    su: "iterate False 11 (start 4 ''TTTTTTTTTTTTTG'') = Inr su" "cur su = 14"
      "kmer su ! 5 = min (fst (forward su) AND 0xffffffffffff) (drop_bit 8 (snd (reverse su)))"
      "(forward su, reverse su) = regs_of 4 True (map (row_of False 0) ''TTTTTTTTTTTTTG'')"
    by blast
  from su(4) have "forward su = (0x88888888888884, 0)" "reverse su = (0, 0x2111111111111100)"
    by (simp_all only: rows_TG13 regs_TG13 prod.inject)
  with su(3) have "kmer su ! 5 = 0x888888888884"
    by (simp only: fst_conv snd_conv candidates_TG13)
  with su(1,2) have b: "kmer_at 5 (iterate False 11 (start 4 ''TTTTTTTTTTTTTG''))
      = Inr (14, 0x888888888884)"
    by (simp add: kmer_at_def)
  from a b show ?thesis
    by (simp only: reverse_complement_CA13 start_fields mode4_facts simp_thms)
qed

end
